theory Spec2Isabelle
  imports Complex_Main "HOL-Library.Char_ord" "HOL-Library.List_Lexorder"
begin

section \<open>Data model (types/grid.ts)\<close>

text \<open>
  A \<^verbatim>\<open>GridNode\<close> is \<^verbatim>\<open>{id, x, y, row, col}\<close> and a \<^verbatim>\<open>GridEdge\<close> is
  \<^verbatim>\<open>{key, from, to}\<close>. The field names carry a prefix, since \<^verbatim>\<open>id\<close>, \<^verbatim>\<open>from\<close> and
  \<^verbatim>\<open>to\<close> are taken in Isabelle. A planar coordinate is a finite number, held as the real
  that it denotes; grid indices are integers.
\<close>

record GridNode =
  node_id :: string
  node_x :: real
  node_y :: real
  node_row :: int
  node_col :: int

record GridEdge =
  edge_key :: string
  edge_from :: GridNode
  edge_to :: GridNode

section \<open>Insertion-ordered maps and sets\<close>

text \<open>
  A JavaScript \<^verbatim>\<open>Map\<close> iterates its keys in insertion order and a \<^verbatim>\<open>Set\<close> its members
  likewise, and \<^verbatim>\<open>longestTrail\<close> depends on both orders. A \<^verbatim>\<open>Map\<close> is an association
  list, a \<^verbatim>\<open>Set\<close> a list; \<^verbatim>\<open>set\<close> and \<^verbatim>\<open>add\<close> keep the position of a key that is
  already there and append a new one.
\<close>

definition map_has :: "('k \<times> 'v) list \<Rightarrow> 'k \<Rightarrow> bool" where
  "map_has m k = (map_of m k \<noteq> None)"

fun map_set :: "('k \<times> 'v) list \<Rightarrow> 'k \<Rightarrow> 'v \<Rightarrow> ('k \<times> 'v) list" where
  "map_set [] k v = [(k, v)]"
| "map_set (p # ps) k v = (if fst p = k then (k, v) # ps else p # map_set ps k v)"

definition set_add :: "'a list \<Rightarrow> 'a \<Rightarrow> 'a list" where
  "set_add s a = (if a \<in> set s then s else s @ [a])"

section \<open>Graph analysis (core/musicMapping.ts)\<close>

type_synonym adjacency = "(string \<times> string list) list"

text \<open>\<^verbatim>\<open>adj.get(k)!.add(v)\<close>: the set stored under \<^verbatim>\<open>k\<close> gains \<^verbatim>\<open>v\<close>.\<close>

definition adj_add :: "adjacency \<Rightarrow> string \<Rightarrow> string \<Rightarrow> adjacency" where
  "adj_add adj k v = (case map_of adj k of None \<Rightarrow> adj | Some s \<Rightarrow> map_set adj k (set_add s v))"

text \<open>\<^verbatim>\<open>if (!adj.has(k)) adj.set(k, new Set())\<close>\<close>

definition adj_ensure :: "adjacency \<Rightarrow> string \<Rightarrow> adjacency" where
  "adj_ensure adj k = (if \<not> map_has adj k then map_set adj k [] else adj)"

definition buildAdjacency_step :: "adjacency \<Rightarrow> GridEdge \<Rightarrow> adjacency" where
  "buildAdjacency_step adj e =
     (let f = node_id (edge_from e);
          t = node_id (edge_to e)
      in adj_add (adj_add (adj_ensure (adj_ensure adj f) t) f t) t f)"

definition buildAdjacency :: "GridEdge list \<Rightarrow> adjacency" where
  "buildAdjacency edges = foldl buildAdjacency_step [] edges"

text \<open>\<^verbatim>\<open>adj.get(node) ?? []\<close>\<close>

definition neighbours :: "adjacency \<Rightarrow> string \<Rightarrow> string list" where
  "neighbours adj node = (case map_of adj node of None \<Rightarrow> [] | Some s \<Rightarrow> s)"

text \<open>Every id the map mentions, as a key or inside a neighbour set.\<close>

definition adj_nodes :: "adjacency \<Rightarrow> string set" where
  "adj_nodes adj = set (map fst adj) \<union> (\<Union>p \<in> set adj. set (snd p))"

text \<open>
  The inner \<^verbatim>\<open>dfs\<close> of \<^verbatim>\<open>longestTrail\<close>. It mutates the captured variable \<^verbatim>\<open>longest\<close>,
  which is threaded through; \<^verbatim>\<open>visited\<close> and \<^verbatim>\<open>path\<close> are copied at each recursive call,
  so the additions of one call are seen by its own children only.
\<close>

function dfs :: "adjacency \<Rightarrow> string \<Rightarrow> string list \<Rightarrow> string list \<Rightarrow> string list \<Rightarrow> string list" where
  "dfs adj node visited path longest =
     (let visited' = set_add visited node;
          path' = path @ [node];
          longest' = (if length path' > length longest then path' else longest)
      in fold (\<lambda>next l. if next \<notin> set visited' then dfs adj next visited' path' l else l)
           (neighbours adj node) longest')"
  by pat_completeness auto

lemma neighbours_in_adj_nodes:
  assumes "n \<in> set (neighbours adj node)"
  shows "n \<in> adj_nodes adj"
proof (cases "map_of adj node")
  case None
  with assms show ?thesis by (simp add: neighbours_def)
next
  case (Some s)
  then have "(node, s) \<in> set adj" by (rule map_of_SomeD)
  moreover from Some assms have "n \<in> set s" by (simp add: neighbours_def)
  ultimately show ?thesis by (force simp: adj_nodes_def)
qed

lemma finite_adj_nodes: "finite (adj_nodes adj)"
  by (simp add: adj_nodes_def)

termination dfs
proof (relation "measure (\<lambda>(adj, node, visited, path, longest). card (adj_nodes adj - insert node (set visited)))")
  show "wf (measure (\<lambda>(adj, node, visited, path, longest). card (adj_nodes adj - insert node (set visited))))"
    by simp
next
  fix adj :: adjacency and node :: string and visited path longest x xa xb :: "string list"
    and xc :: string and xd :: "string list"
  assume a: "x = set_add visited node" "xc \<in> set (neighbours adj node)" "xc \<notin> set x"
  have fin: "finite (adj_nodes adj - insert node (set visited))"
    using finite_adj_nodes by simp
  have sub: "adj_nodes adj - insert xc (set x) \<subset> adj_nodes adj - insert node (set visited)"
    using a neighbours_in_adj_nodes[of xc adj node] by (auto simp: set_add_def split: if_splits)
  show "((adj, xc, x, xa, xd), adj, node, visited, path, longest)
        \<in> measure (\<lambda>(adj, node, visited, path, longest). card (adj_nodes adj - insert node (set visited)))"
    using psubset_card_mono[OF fin sub] by simp
qed

declare dfs.simps [simp del]

definition longestTrail :: "adjacency \<Rightarrow> string list" where
  "longestTrail adj = fold (\<lambda>start longest. dfs adj start [] [] longest) (map fst adj) []"

text \<open>
  \<^verbatim>\<open>path[i]\<close>: an index outside the array reads \<^verbatim>\<open>undefined\<close>, which is \<open>None\<close> here,
  so the resampled list holds optional ids.
\<close>

definition js_index :: "'a list \<Rightarrow> int \<Rightarrow> 'a option" where
  "js_index xs i = (if 0 \<le> i \<and> i < int (length xs) then Some (xs ! nat i) else None)"

function pingPongLoop ::
  "string list \<Rightarrow> int \<Rightarrow> string option list \<Rightarrow> bool \<Rightarrow> int \<Rightarrow> string option list" where
  "pingPongLoop path targetLength result forward i =
     (if int (length result) < targetLength then
        (let result' = result @ [js_index path i];
             i' = (if forward then i + 1 else i - 1);
             forward' = (if i' = int (length path) - 1 then False
                         else if i' = 0 then True else forward)
         in pingPongLoop path targetLength result' forward' i')
      else result)"
  by pat_completeness auto
termination
  by (relation "measure (\<lambda>(path, targetLength, result, forward, i). nat (targetLength - int (length result)))")
     auto

declare pingPongLoop.simps [simp del]

definition pingPongToLength :: "string list \<Rightarrow> int \<Rightarrow> string option list" where
  "pingPongToLength path targetLength =
     (if length path = 0 then [] else pingPongLoop path targetLength [] True 0)"

text \<open>
  What the specification calls a simple path of the graph: consecutive ids are adjacent in the map,
  no id repeats, and every id is one the map mentions.
\<close>

fun chain :: "adjacency \<Rightarrow> string list \<Rightarrow> bool" where
  "chain adj [] = True"
| "chain adj [a] = True"
| "chain adj (a # b # rest) = (b \<in> set (neighbours adj a) \<and> chain adj (b # rest))"

definition simple_path :: "adjacency \<Rightarrow> string list \<Rightarrow> bool" where
  "simple_path adj p = (distinct p \<and> set p \<subseteq> adj_nodes adj \<and> chain adj p)"


section \<open>Ping-pong resampling\<close>

lemma pingPongLoop_length:
  "length (pingPongLoop path t result fwd i) = max (length result) (nat t)"
proof (induction path t result fwd i rule: pingPongLoop.induct)
  case (1 path targetLength result forward i)
  show ?case
  proof (cases "int (length result) < targetLength")
    case True
    then show ?thesis
      using 1[OF True refl refl refl]
      by (subst pingPongLoop.simps) (simp add: Let_def max_def)
  next
    case False
    then show ?thesis by (subst pingPongLoop.simps) (auto simp: max_def)
  qed
qed

lemma pingPongToLength_length:
  "path \<noteq> [] \<Longrightarrow> length (pingPongToLength path t) = nat t"
  by (simp add: pingPongToLength_def pingPongLoop_length)

lemma pingPongLoop_single_tail:
  "1 \<le> i \<Longrightarrow> pingPongLoop [a] t result True i
     = result @ replicate (nat t - length result) None"
proof (induction "[a]" t result True i rule: pingPongLoop.induct)
  case (1 targetLength result i)
  show ?case
  proof (cases "int (length result) < targetLength")
    case True
    have "pingPongLoop [a] targetLength (result @ [js_index [a] i]) True (i + 1)
          = (result @ [js_index [a] i]) @ replicate (nat targetLength - length (result @ [js_index [a] i])) None"
      using 1(1)[OF True refl refl] 1(2) by simp
    moreover have "js_index [a] i = None" using 1(2) by (simp add: js_index_def)
    moreover have "nat targetLength - length result = Suc (nat targetLength - Suc (length result))"
      using True by linarith
    ultimately show ?thesis
      using True 1(2) by (subst pingPongLoop.simps) (simp add: Let_def replicate_app_Cons_same)
  next
    case False
    then show ?thesis by (subst pingPongLoop.simps) simp
  qed
qed

text \<open>
  C1. On a path of one id the index leaves the array after the first step: \<^verbatim>\<open>i\<close> becomes 1,
  which is neither \<^verbatim>\<open>path.length - 1 = 0\<close> nor 0, so the direction never flips and every
  later read is \<^verbatim>\<open>path[i]\<close> with \<^verbatim>\<open>i \<ge> 1\<close>, that is \<^verbatim>\<open>undefined\<close>. The result has the
  requested length, but only its first element is the id.
\<close>

theorem pingPongToLength_single_node:
  "pingPongToLength [a] (int n) = (if n = 0 then [] else Some a # replicate (n - 1) None)"
proof (cases n)
  case 0
  then show ?thesis by (simp add: pingPongToLength_def pingPongLoop.simps[of _ 0])
next
  case (Suc m)
  have "pingPongLoop [a] (int n) [] True 0 = pingPongLoop [a] (int n) [Some a] True 1"
    using Suc by (subst pingPongLoop.simps) (simp add: js_index_def)
  also have "\<dots> = [Some a] @ replicate (nat (int n) - length [Some a]) None"
    by (rule pingPongLoop_single_tail) simp
  finally show ?thesis using Suc by (simp add: pingPongToLength_def)
qed

section \<open>The longest-trail search\<close>

lemma fold_length_mono:
  assumes "\<And>x l. x \<in> set xs \<Longrightarrow> length (l::'b list) \<le> length (f x l)"
  shows "length l \<le> length (fold f xs l)"
  using assms
proof (induction xs arbitrary: l)
  case Nil
  then show ?case by simp
next
  case (Cons x xs)
  have "length l \<le> length (f x l)" using Cons.prems by simp
  also have "\<dots> \<le> length (fold f xs (f x l))" using Cons.IH Cons.prems by simp
  finally show ?case by simp
qed

lemma fold_length_reach:
  assumes "\<And>x l. x \<in> set xs \<Longrightarrow> length (l::'b list) \<le> length (f x l)"
    and "y \<in> set xs" and "\<And>l. n \<le> length (f y l)"
  shows "n \<le> length (fold f xs l)"
  using assms
proof (induction xs arbitrary: l)
  case Nil
  then show ?case by simp
next
  case (Cons x xs)
  show ?case
  proof (cases "y = x")
    case True
    have "n \<le> length (f x l)" using Cons.prems(3) True by simp
    also have "\<dots> \<le> length (fold f xs (f x l))"
      using Cons.prems(1) by (intro fold_length_mono) simp
    finally show ?thesis by simp
  next
    case False
    then have "y \<in> set xs" using Cons.prems(2) by simp
    then have "n \<le> length (fold f xs (f x l))"
      using Cons.IH[of "f x l"] Cons.prems(1,3) by simp
    then show ?thesis by simp
  qed
qed

lemma fold_invariant:
  assumes "P l" and "\<And>x l. x \<in> set xs \<Longrightarrow> P l \<Longrightarrow> P (f x l)"
  shows "P (fold f xs l)"
  using assms by (induction xs arbitrary: l) simp_all

lemma dfs_mono: "length longest \<le> length (dfs adj node visited path longest)"
proof (induction adj node visited path longest rule: dfs.induct)
  case (1 adj node visited path longest)
  let ?v = "set_add visited node" and ?p = "path @ [node]"
  let ?l = "if length ?p > length longest then ?p else longest"
  let ?f = "\<lambda>next l. if next \<notin> set ?v then dfs adj next ?v ?p l else l"
  have step: "\<And>x l. x \<in> set (neighbours adj node) \<Longrightarrow> length l \<le> length (?f x l)"
    using 1[OF refl refl refl] by simp
  have "length longest \<le> length ?l" by simp
  also have "\<dots> \<le> length (fold ?f (neighbours adj node) ?l)"
    using step by (rule fold_length_mono)
  finally show ?case by (subst dfs.simps) (simp add: Let_def)
qed

lemma dfs_covers:
  "chain adj (node # q) \<Longrightarrow> distinct (node # q) \<Longrightarrow> set q \<inter> set visited = {}
   \<Longrightarrow> length path + 1 + length q \<le> length (dfs adj node visited path longest)"
proof (induction adj node visited path longest arbitrary: q rule: dfs.induct)
  case (1 adj node visited path longest)
  let ?v = "set_add visited node" and ?p = "path @ [node]"
  let ?l = "if length ?p > length longest then ?p else longest"
  let ?f = "\<lambda>next l. if next \<notin> set ?v then dfs adj next ?v ?p l else l"
  have step: "\<And>x l. x \<in> set (neighbours adj node) \<Longrightarrow> length l \<le> length (?f x l)"
    by (simp add: dfs_mono)
  have unfold: "dfs adj node visited path longest = fold ?f (neighbours adj node) ?l"
    by (subst dfs.simps) (simp add: Let_def)
  show ?case
  proof (cases q)
    case Nil
    have "length path + 1 \<le> length ?l" by simp
    also have "\<dots> \<le> length (fold ?f (neighbours adj node) ?l)"
      using step by (rule fold_length_mono)
    finally show ?thesis using Nil unfold by simp
  next
    case (Cons n q')
    have n_nb: "n \<in> set (neighbours adj node)" and ch: "chain adj (n # q')"
      using "1.prems"(1) Cons by simp_all
    have n_new: "n \<notin> set ?v"
      using "1.prems"(2,3) Cons by (auto simp: set_add_def)
    have d: "distinct (n # q')" using "1.prems"(2) Cons by simp
    have disj: "set q' \<inter> set ?v = {}"
      using "1.prems"(2,3) Cons by (auto simp: set_add_def)
    have reach: "\<And>l. length ?p + 1 + length q' \<le> length (?f n l)"
      using "1.IH"[OF refl refl refl n_nb n_new ch d disj] n_new by simp
    have "length ?p + 1 + length q' \<le> length (fold ?f (neighbours adj node) ?l)"
      using step n_nb reach by (rule fold_length_reach)
    then show ?thesis using Cons unfold by simp
  qed
qed

lemma chain_snoc:
  "chain adj (p @ [a]) \<Longrightarrow> b \<in> set (neighbours adj a) \<Longrightarrow> chain adj (p @ [a, b])"
proof (induction p rule: chain.induct[of _ adj])
  case (1 adj)
  then show ?case by simp
next
  case (2 adj c)
  then show ?case by simp
next
  case (3 adj c d rest)
  then show ?case by simp
qed

lemma dfs_sound:
  "simple_path adj longest \<Longrightarrow> simple_path adj (path @ [node]) \<Longrightarrow> set path \<subseteq> set visited
   \<Longrightarrow> simple_path adj (dfs adj node visited path longest)"
proof (induction adj node visited path longest rule: dfs.induct)
  case (1 adj node visited path longest)
  let ?v = "set_add visited node" and ?p = "path @ [node]"
  let ?l = "if length ?p > length longest then ?p else longest"
  let ?f = "\<lambda>next l. if next \<notin> set ?v then dfs adj next ?v ?p l else l"
  have unfold: "dfs adj node visited path longest = fold ?f (neighbours adj node) ?l"
    by (subst dfs.simps) (simp add: Let_def)
  have sub: "set ?p \<subseteq> set ?v" using "1.prems"(3) by (auto simp: set_add_def)
  have start: "simple_path adj ?l" using "1.prems"(1,2) by simp
  have step: "\<And>x l. x \<in> set (neighbours adj node) \<Longrightarrow> simple_path adj l \<Longrightarrow> simple_path adj (?f x l)"
  proof -
    fix x l assume x: "x \<in> set (neighbours adj node)" and l: "simple_path adj l"
    show "simple_path adj (?f x l)"
    proof (cases "x \<in> set ?v")
      case True
      then show ?thesis using l by simp
    next
      case False
      have "chain adj (path @ [node, x])"
        using "1.prems"(2) x by (intro chain_snoc) (simp_all add: simple_path_def)
      moreover have "distinct (?p @ [x])" using False sub "1.prems"(2)
        by (auto simp: simple_path_def)
      moreover have "x \<in> adj_nodes adj" using x by (rule neighbours_in_adj_nodes)
      ultimately have sp: "simple_path adj (?p @ [x])"
        using "1.prems"(2) by (simp add: simple_path_def)
      show ?thesis using "1.IH"[OF refl refl refl x False l sp sub] False by simp
    qed
  qed
  show ?case unfolding unfold using start step by (rule fold_invariant)
qed

lemma longestTrail_simple: "simple_path adj (longestTrail adj)"
  unfolding longestTrail_def
proof (rule fold_invariant)
  show "simple_path adj []" by (simp add: simple_path_def)
next
  fix x l assume "x \<in> set (map fst adj)" and l: "simple_path adj l"
  then have "simple_path adj ([] @ [x])" by (simp add: simple_path_def adj_nodes_def)
  then show "simple_path adj (dfs adj x [] [] l)" using l by (intro dfs_sound) simp_all
qed

lemma longestTrail_from_key:
  assumes "a \<in> set (map fst adj)" "chain adj (a # q)" "distinct (a # q)"
  shows "length (a # q) \<le> length (longestTrail adj)"
  unfolding longestTrail_def
proof (rule fold_length_reach[where y = a])
  show "a \<in> set (map fst adj)" by fact
next
  fix x l show "length l \<le> length (dfs adj x [] [] l)" by (rule dfs_mono)
next
  fix l show "length (a # q) \<le> length (dfs adj a [] [] l)"
    using dfs_covers[OF assms(2,3), of "[]" "[]" l] by simp
qed

lemma longestTrail_maximal:
  assumes "simple_path adj q"
  shows "length q \<le> length (longestTrail adj)"
proof (cases q)
  case Nil
  then show ?thesis by simp
next
  case (Cons a q')
  have ch: "chain adj (a # q')" and d: "distinct (a # q')" and a: "a \<in> adj_nodes adj"
    using assms Cons by (simp_all add: simple_path_def)
  show ?thesis
  proof (cases "a \<in> set (map fst adj)")
    case True
    then show ?thesis using longestTrail_from_key[OF True ch d] Cons by simp
  next
    case False
    then have "map_of adj a = None" by (simp add: map_of_eq_None_iff)
    then have "neighbours adj a = []" by (simp add: neighbours_def)
    then have q': "q' = []" using ch by (cases q') simp_all
    from a False obtain k where k: "k \<in> set (map fst adj)" by (auto simp: adj_nodes_def)
    have "length [k] \<le> length (longestTrail adj)"
      by (rule longestTrail_from_key[OF k]) simp_all
    then show ?thesis using Cons q' by simp
  qed
qed

subsection \<open>The adjacency map of an edge list\<close>

lemma map_of_map_set: "map_of (map_set m k v) k' = (if k' = k then Some v else map_of m k')"
  by (induction m) auto

lemma keys_map_set: "fst ` set (map_set m k v) = insert k (fst ` set m)"
  by (induction m) auto

lemma keys_adj_add: "fst ` set (adj_add adj k v) = fst ` set adj"
proof (cases "map_of adj k")
  case None
  then show ?thesis by (simp add: adj_add_def)
next
  case (Some s)
  then have "k \<in> fst ` set adj" by (metis domI dom_map_of_conv_image_fst)
  then show ?thesis using Some by (auto simp: adj_add_def keys_map_set)
qed

lemma keys_adj_ensure: "fst ` set (adj_ensure adj k) = insert k (fst ` set adj)"
  by (auto simp: adj_ensure_def keys_map_set map_has_def map_of_eq_None_iff)

lemma keys_buildAdjacency_step:
  "fst ` set (buildAdjacency_step adj e)
   = insert (node_id (edge_from e)) (insert (node_id (edge_to e)) (fst ` set adj))"
  by (auto simp: buildAdjacency_step_def Let_def keys_adj_add keys_adj_ensure)

lemma keys_foldl_buildAdjacency_step:
  "fst ` set (foldl buildAdjacency_step adj edges)
   = fst ` set adj \<union> (\<lambda>e. node_id (edge_from e)) ` set edges \<union> (\<lambda>e. node_id (edge_to e)) ` set edges"
  by (induction edges arbitrary: adj) (auto simp: keys_buildAdjacency_step)

lemma keys_buildAdjacency:
  "fst ` set (buildAdjacency edges)
   = (\<lambda>e. node_id (edge_from e)) ` set edges \<union> (\<lambda>e. node_id (edge_to e)) ` set edges"
  by (simp add: buildAdjacency_def keys_foldl_buildAdjacency_step)

lemma longestTrail_nonempty:
  assumes "edges \<noteq> []"
  shows "longestTrail (buildAdjacency edges) \<noteq> []"
proof -
  from assms obtain e where "e \<in> set edges" by (cases edges) auto
  then have "node_id (edge_from e) \<in> set (map fst (buildAdjacency edges))"
    by (auto simp: keys_buildAdjacency)
  then have "length [node_id (edge_from e)] \<le> length (longestTrail (buildAdjacency edges))"
    by (rule longestTrail_from_key) simp_all
  then show ?thesis by auto
qed

lemma longestTrail_empty: "longestTrail (buildAdjacency []) = []"
  by (simp add: buildAdjacency_def longestTrail_def)

lemma longestTrail_le_card: "length (longestTrail adj) \<le> card (adj_nodes adj)"
proof -
  have "distinct (longestTrail adj)" "set (longestTrail adj) \<subseteq> adj_nodes adj"
    using longestTrail_simple[of adj] by (simp_all add: simple_path_def)
  then show ?thesis
    by (metis card_mono distinct_card finite_adj_nodes)
qed

definition four_cycle :: "GridNode \<Rightarrow> GridNode \<Rightarrow> GridNode \<Rightarrow> GridNode \<Rightarrow> GridEdge list" where
  "four_cycle A B C D =
     [\<lparr>edge_key = node_id A @ ''-'' @ node_id B, edge_from = A, edge_to = B\<rparr>,
      \<lparr>edge_key = node_id B @ ''-'' @ node_id C, edge_from = B, edge_to = C\<rparr>,
      \<lparr>edge_key = node_id C @ ''-'' @ node_id D, edge_from = C, edge_to = D\<rparr>,
      \<lparr>edge_key = node_id A @ ''-'' @ node_id D, edge_from = D, edge_to = A\<rparr>]"

lemma map_has_map_set: "map_has (map_set m k v) k' = (k' = k \<or> map_has m k')"
  by (simp add: map_has_def map_of_map_set)

lemma map_has_adj_add: "map_has (adj_add adj k v) k' = map_has adj k'"
  by (cases "map_of adj k") (auto simp: adj_add_def map_has_def map_of_map_set)

lemma map_has_adj_ensure: "map_has (adj_ensure adj k) k' = (k' = k \<or> map_has adj k')"
  by (auto simp: adj_ensure_def map_has_map_set)

lemma neighbours_adj_ensure: "neighbours (adj_ensure adj k) a = neighbours adj a"
  by (auto simp: adj_ensure_def neighbours_def map_has_def map_of_map_set)

lemma neighbours_adj_add:
  "map_has adj k \<Longrightarrow>
   set (neighbours (adj_add adj k v) a) = set (neighbours adj a) \<union> (if a = k then {v} else {})"
  by (auto simp: neighbours_def adj_add_def map_has_def map_of_map_set set_add_def
        split: option.splits)

lemma neighbours_buildAdjacency_step:
  "set (neighbours (buildAdjacency_step adj e) a)
   = set (neighbours adj a)
     \<union> (if a = node_id (edge_from e) then {node_id (edge_to e)} else {})
     \<union> (if a = node_id (edge_to e) then {node_id (edge_from e)} else {})"
proof -
  define f where "f = node_id (edge_from e)"
  define t where "t = node_id (edge_to e)"
  define adj2 where "adj2 = adj_ensure (adj_ensure adj f) t"
  define adj3 where "adj3 = adj_add adj2 f t"
  have step: "buildAdjacency_step adj e = adj_add adj3 t f"
    by (simp add: buildAdjacency_step_def Let_def adj2_def adj3_def f_def t_def)
  have h2: "map_has adj2 f" "map_has adj2 t" by (simp_all add: adj2_def map_has_adj_ensure)
  have n2: "neighbours adj2 a = neighbours adj a" by (simp add: adj2_def neighbours_adj_ensure)
  have h3: "map_has adj3 t" using h2 by (simp add: adj3_def map_has_adj_add)
  have n3: "set (neighbours adj3 a) = set (neighbours adj2 a) \<union> (if a = f then {t} else {})"
    unfolding adj3_def using h2(1) by (rule neighbours_adj_add)
  have "set (neighbours (adj_add adj3 t f) a) = set (neighbours adj3 a) \<union> (if a = t then {f} else {})"
    using h3 by (rule neighbours_adj_add)
  then show ?thesis unfolding step n3 n2 f_def t_def .
qed

lemma neighbours_foldl_buildAdjacency_step:
  "set (neighbours (foldl buildAdjacency_step adj edges) a)
   = set (neighbours adj a)
     \<union> {node_id (edge_to e) | e. e \<in> set edges \<and> node_id (edge_from e) = a}
     \<union> {node_id (edge_from e) | e. e \<in> set edges \<and> node_id (edge_to e) = a}"
proof (induction edges arbitrary: adj)
  case Nil
  then show ?case by simp
next
  case (Cons e edges)
  show ?case
    unfolding foldl_Cons Cons.IH neighbours_buildAdjacency_step by auto
qed

lemma neighbours_buildAdjacency:
  "set (neighbours (buildAdjacency edges) a)
   = {node_id (edge_to e) | e. e \<in> set edges \<and> node_id (edge_from e) = a}
     \<union> {node_id (edge_from e) | e. e \<in> set edges \<and> node_id (edge_to e) = a}"
  unfolding buildAdjacency_def neighbours_foldl_buildAdjacency_step by (simp add: neighbours_def)

lemma neighbours_buildAdjacency_to:
  "e \<in> set edges \<Longrightarrow>
   node_id (edge_to e) \<in> set (neighbours (buildAdjacency edges) (node_id (edge_from e)))"
  unfolding neighbours_buildAdjacency by blast

lemma neighbours_buildAdjacency_from:
  "e \<in> set edges \<Longrightarrow>
   node_id (edge_from e) \<in> set (neighbours (buildAdjacency edges) (node_id (edge_to e)))"
  unfolding neighbours_buildAdjacency by blast

lemma distinct_map_set: "distinct (map fst m) \<Longrightarrow> distinct (map fst (map_set m k v))"
proof (induction m)
  case Nil
  then show ?case by simp
next
  case (Cons p m)
  have "fst ` set (map_set m k v) = insert k (fst ` set m)" by (rule keys_map_set)
  with Cons show ?case by auto
qed

lemma distinct_adj_add: "distinct (map fst adj) \<Longrightarrow> distinct (map fst (adj_add adj k v))"
  by (cases "map_of adj k") (simp_all add: adj_add_def distinct_map_set)

lemma distinct_buildAdjacency_step:
  "distinct (map fst adj) \<Longrightarrow> distinct (map fst (buildAdjacency_step adj e))"
  by (simp add: buildAdjacency_step_def Let_def adj_ensure_def distinct_adj_add distinct_map_set)

lemma distinct_foldl_buildAdjacency_step:
  "distinct (map fst adj) \<Longrightarrow> distinct (map fst (foldl buildAdjacency_step adj edges))"
  by (induction edges arbitrary: adj) (simp_all add: distinct_buildAdjacency_step)

lemma distinct_buildAdjacency: "distinct (map fst (buildAdjacency edges))"
  by (simp add: buildAdjacency_def distinct_foldl_buildAdjacency_step)

definition endpoint_ids :: "GridEdge list \<Rightarrow> string set" where
  "endpoint_ids edges =
     (\<lambda>e. node_id (edge_from e)) ` set edges \<union> (\<lambda>e. node_id (edge_to e)) ` set edges"

lemma adj_nodes_buildAdjacency: "adj_nodes (buildAdjacency edges) = endpoint_ids edges"
proof
  show "adj_nodes (buildAdjacency edges) \<subseteq> endpoint_ids edges"
  proof
    fix n assume "n \<in> adj_nodes (buildAdjacency edges)"
    then consider "n \<in> fst ` set (buildAdjacency edges)"
      | k s where "(k, s) \<in> set (buildAdjacency edges)" "n \<in> set s"
      by (auto simp: adj_nodes_def)
    then show "n \<in> endpoint_ids edges"
    proof cases
      case 1
      then show ?thesis by (simp add: keys_buildAdjacency endpoint_ids_def)
    next
      case 2
      have "map_of (buildAdjacency edges) k = Some s"
        using distinct_buildAdjacency 2(1) by (rule map_of_is_SomeI)
      then have "n \<in> set (neighbours (buildAdjacency edges) k)"
        using 2(2) by (simp add: neighbours_def)
      then show ?thesis unfolding neighbours_buildAdjacency endpoint_ids_def by auto
    qed
  qed
next
  show "endpoint_ids edges \<subseteq> adj_nodes (buildAdjacency edges)"
    using keys_buildAdjacency[of edges] by (auto simp: adj_nodes_def endpoint_ids_def)
qed

lemma longestTrail_four_cycle:
  assumes "distinct [node_id A, node_id B, node_id C, node_id D]"
  shows "length (longestTrail (buildAdjacency (four_cycle A B C D))) = 4"
proof -
  let ?adj = "buildAdjacency (four_cycle A B C D)"
  have nodes: "adj_nodes ?adj = set [node_id A, node_id B, node_id C, node_id D]"
    unfolding adj_nodes_buildAdjacency by (auto simp: endpoint_ids_def four_cycle_def)
  have "card (adj_nodes ?adj) = 4"
    unfolding nodes using assms distinct_card[of "[node_id A, node_id B, node_id C, node_id D]"] by simp
  then have le: "length (longestTrail ?adj) \<le> 4"
    using longestTrail_le_card[of ?adj] by simp
  have "node_id B \<in> set (neighbours ?adj (node_id A))"
    using neighbours_buildAdjacency_to[of "four_cycle A B C D ! 0" "four_cycle A B C D"]
    by (simp add: four_cycle_def)
  moreover have "node_id C \<in> set (neighbours ?adj (node_id B))"
    using neighbours_buildAdjacency_to[of "four_cycle A B C D ! 1" "four_cycle A B C D"]
    by (simp add: four_cycle_def)
  moreover have "node_id D \<in> set (neighbours ?adj (node_id C))"
    using neighbours_buildAdjacency_to[of "four_cycle A B C D ! 2" "four_cycle A B C D"]
    by (simp add: four_cycle_def)
  ultimately have ch: "chain ?adj [node_id A, node_id B, node_id C, node_id D]"
    by simp
  have sp: "simple_path ?adj [node_id A, node_id B, node_id C, node_id D]"
    unfolding simple_path_def nodes using assms ch by simp
  have "4 \<le> length (longestTrail ?adj)"
    using longestTrail_maximal[OF sp] by simp
  with le show ?thesis by simp
qed

text \<open>Nodes for concrete examples: only the id matters to the graph analysis.\<close>

definition mkNode :: "string \<Rightarrow> GridNode" where
  "mkNode s = \<lparr>node_id = s, node_x = 0, node_y = 0, node_row = 0, node_col = 0\<rparr>"

text \<open>
  C3. \<^verbatim>\<open>longestTrail\<close> returns a simple path of the graph, and no simple path of the
  graph has more nodes. On the 4-cycle A-B-C-D-A, built by \<^verbatim>\<open>buildAdjacency\<close> from its four
  edges, the result has exactly 4 nodes, all different.
\<close>

theorem longestTrail_longest_simple_path:
  "simple_path adj (longestTrail adj)
   \<and> (\<forall>q. simple_path adj q \<longrightarrow> length q \<le> length (longestTrail adj))
   \<and> (distinct [node_id A, node_id B, node_id C, node_id D] \<longrightarrow>
        length (longestTrail (buildAdjacency (four_cycle A B C D))) = 4
        \<and> distinct (longestTrail (buildAdjacency (four_cycle A B C D))))"
proof (intro conjI allI impI)
  show "simple_path adj (longestTrail adj)" by (rule longestTrail_simple)
next
  fix q assume "simple_path adj q"
  then show "length q \<le> length (longestTrail adj)" by (rule longestTrail_maximal)
next
  assume "distinct [node_id A, node_id B, node_id C, node_id D]"
  then show "length (longestTrail (buildAdjacency (four_cycle A B C D))) = 4"
    by (rule longestTrail_four_cycle)
next
  show "distinct (longestTrail (buildAdjacency (four_cycle A B C D)))"
    using longestTrail_simple[of "buildAdjacency (four_cycle A B C D)"]
    by (simp add: simple_path_def)
qed

theorem longestTrail_longest_simple_path_witness:
  "simple_path [(''A'', [''B'', ''D'']), (''B'', [''A'', ''C'']), (''C'', [''B'', ''D'']), (''D'', [''C'', ''A''])]
     [''B'', ''C'', ''D'', ''A'']
   \<and> length [''B'', ''C'', ''D'', ''A'']
       \<le> length (longestTrail [(''A'', [''B'', ''D'']), (''B'', [''A'', ''C'']), (''C'', [''B'', ''D'']), (''D'', [''C'', ''A''])])
   \<and> distinct [node_id (mkNode ''A''), node_id (mkNode ''B''), node_id (mkNode ''C''), node_id (mkNode ''D'')]
   \<and> length (longestTrail (buildAdjacency
         (four_cycle (mkNode ''A'') (mkNode ''B'') (mkNode ''C'') (mkNode ''D'')))) = 4"
proof -
  let ?adj = "[(''A'', [''B'', ''D'']), (''B'', [''A'', ''C'']), (''C'', [''B'', ''D'']), (''D'', [''C'', ''A''])]"
  have sp: "simple_path ?adj [''B'', ''C'', ''D'', ''A'']"
    by (simp add: simple_path_def adj_nodes_def neighbours_def)
  have d: "distinct [node_id (mkNode ''A''), node_id (mkNode ''B''), node_id (mkNode ''C''), node_id (mkNode ''D'')]"
    by (simp add: mkNode_def)
  show ?thesis
    using sp d
      longestTrail_longest_simple_path[of ?adj "mkNode ''A''" "mkNode ''B''" "mkNode ''C''" "mkNode ''D''"]
    by blast
qed

section \<open>Degree map\<close>

type_synonym degree_map = "(string \<times> nat) list"

text \<open>\<^verbatim>\<open>degree.get(id) ?? 0\<close>; the id may be \<^verbatim>\<open>undefined\<close>, which is never a key.\<close>

definition degree_get :: "degree_map \<Rightarrow> string option \<Rightarrow> nat" where
  "degree_get degree k =
     (case k of None \<Rightarrow> 0
      | Some s \<Rightarrow> (case map_of degree s of None \<Rightarrow> 0 | Some d \<Rightarrow> d))"

text \<open>\<^verbatim>\<open>degree.set(k, (degree.get(k) ?? 0) + 1)\<close>\<close>

definition degree_bump :: "degree_map \<Rightarrow> string \<Rightarrow> degree_map" where
  "degree_bump degree k = map_set degree k (degree_get degree (Some k) + 1)"

definition computeDegreeMap_step :: "degree_map \<Rightarrow> GridEdge \<Rightarrow> degree_map" where
  "computeDegreeMap_step degree e =
     degree_bump (degree_bump degree (node_id (edge_from e))) (node_id (edge_to e))"

definition computeDegreeMap :: "GridEdge list \<Rightarrow> degree_map" where
  "computeDegreeMap edges = foldl computeDegreeMap_step [] edges"

section \<open>JavaScript numbers\<close>

text \<open>
  A number is a binary64 value, and the result of an arithmetic operation is the number
  nearest to the exact result: of two numbers equally near, the one with the even
  significand. Around a real \<open>v\<close> the numbers are the integer multiples of \<open>2 ^ e\<close>, where
  \<open>e\<close> is 52 below the binary exponent of \<open>v\<close> and never below -1074 (the subnormal range).
  \<open>nearest_double\<close> is this rounding without the upper bound of the exponent: a value of
  magnitude \<open>2 ^ 1024\<close> or more stands for an overflow, which its users test. The binary
  exponent of a positive \<open>v\<close> is the \<open>k\<close> with \<open>2 ^ k \<le> v < 2 ^ (k + 1)\<close>, found by halving or
  doubling.
\<close>

function binary_exponent :: "real \<Rightarrow> int" where
  "binary_exponent v =
     (if v \<le> 0 then 0
      else if 2 \<le> v then binary_exponent (v / 2) + 1
      else if v < 1 then binary_exponent (2 * v) - 1
      else 0)"
  by pat_completeness auto

termination
proof (relation "measure (\<lambda>v. nat \<bar>\<lfloor>log 2 v\<rfloor>\<bar>)")
  show "wf (measure (\<lambda>v. nat \<bar>\<lfloor>log 2 v\<rfloor>\<bar>))" by simp
next
  fix v :: real
  assume "\<not> v \<le> 0" "2 \<le> v"
  then have l: "log 2 (v / 2) = log 2 v - 1" by (simp add: log_divide)
  have "1 \<le> log 2 v" using \<open>2 \<le> v\<close> by (simp add: le_log_iff)
  then have "1 \<le> \<lfloor>log 2 v\<rfloor>" by linarith
  moreover have "\<lfloor>log 2 (v / 2)\<rfloor> = \<lfloor>log 2 v\<rfloor> - 1" unfolding l by linarith
  ultimately show "(v / 2, v) \<in> measure (\<lambda>v. nat \<bar>\<lfloor>log 2 v\<rfloor>\<bar>)" by simp
next
  fix v :: real
  assume a: "\<not> v \<le> 0" "\<not> 2 \<le> v" "v < 1"
  then have l: "log 2 (2 * v) = 1 + log 2 v" by (simp add: log_mult)
  have "log 2 v < 0" using a by simp
  then have "\<lfloor>log 2 v\<rfloor> \<le> - 1" by linarith
  moreover have "\<lfloor>log 2 (2 * v)\<rfloor> = \<lfloor>log 2 v\<rfloor> + 1" unfolding l by linarith
  ultimately show "(2 * v, v) \<in> measure (\<lambda>v. nat \<bar>\<lfloor>log 2 v\<rfloor>\<bar>)" by simp
qed

declare binary_exponent.simps [simp del]

definition round_half_even :: "real \<Rightarrow> int" where
  "round_half_even m =
     (let f = \<lfloor>m\<rfloor>; r = m - real_of_int f
      in if r < 1 / 2 then f
         else if r > 1 / 2 then f + 1
         else if even f then f else f + 1)"

definition nearest_double :: "real \<Rightarrow> real" where
  "nearest_double v =
     (if v = 0 then 0
      else (let e = max (binary_exponent \<bar>v\<bar> - 52) (- 1074)
            in real_of_int (round_half_even (v / 2 powi e)) * 2 powi e))"

text \<open>
  An integral number or \<^verbatim>\<open>Infinity\<close>: the values of \<^verbatim>\<open>parseInt\<close> on a string of digits, and
  the rows and columns that index the pitch table.
\<close>

datatype js_integer = Finite int | Infinity

text \<open>The number nearest to a natural; from \<open>2 ^ 1024 - 2 ^ 970\<close> on that is \<^verbatim>\<open>Infinity\<close>.\<close>

definition number_of_nat :: "nat \<Rightarrow> js_integer" where
  "number_of_nat n =
     (let v = nearest_double (real n)
      in if 2 ^ 1024 \<le> v then Infinity else Finite \<lfloor>v\<rfloor>)"

text \<open>
  A number in general: a finite one (here with any real as its value; the operations return
  binary64 values), an infinity, or NaN. The operations are those of IEEE 754 as ECMAScript
  takes them; \<^verbatim>\<open>Math.hypot\<close>, which ECMAScript leaves to the implementation up to an
  approximation, is the rounded square root of the exact sum of squares. The two zeros are
  not told apart: the code below never divides by a zero that could be negative.
\<close>

datatype js_number = Num real | PosInfinity | NegInfinity | NaN

text \<open>The number nearest to a real; from magnitude \<open>2 ^ 1024 - 2 ^ 970\<close> on, an infinity.\<close>

definition to_number :: "real \<Rightarrow> js_number" where
  "to_number v =
     (let r = nearest_double v
      in if 2 ^ 1024 \<le> r then PosInfinity
         else if r \<le> - (2 ^ 1024) then NegInfinity
         else Num r)"

fun js_negate :: "js_number \<Rightarrow> js_number" where
  "js_negate (Num a) = Num (- a)"
| "js_negate PosInfinity = NegInfinity"
| "js_negate NegInfinity = PosInfinity"
| "js_negate NaN = NaN"

fun js_add :: "js_number \<Rightarrow> js_number \<Rightarrow> js_number" where
  "js_add (Num a) (Num b) = to_number (a + b)"
| "js_add NaN y = NaN"
| "js_add x NaN = NaN"
| "js_add PosInfinity NegInfinity = NaN"
| "js_add NegInfinity PosInfinity = NaN"
| "js_add PosInfinity y = PosInfinity"
| "js_add x PosInfinity = PosInfinity"
| "js_add NegInfinity y = NegInfinity"
| "js_add x NegInfinity = NegInfinity"

definition js_sub :: "js_number \<Rightarrow> js_number \<Rightarrow> js_number" where
  "js_sub x y = js_add x (js_negate y)"

fun js_mul :: "js_number \<Rightarrow> js_number \<Rightarrow> js_number" where
  "js_mul (Num a) (Num b) = to_number (a * b)"
| "js_mul NaN y = NaN"
| "js_mul x NaN = NaN"
| "js_mul PosInfinity (Num b) = (if b = 0 then NaN else if 0 < b then PosInfinity else NegInfinity)"
| "js_mul NegInfinity (Num b) = (if b = 0 then NaN else if 0 < b then NegInfinity else PosInfinity)"
| "js_mul (Num a) PosInfinity = (if a = 0 then NaN else if 0 < a then PosInfinity else NegInfinity)"
| "js_mul (Num a) NegInfinity = (if a = 0 then NaN else if 0 < a then NegInfinity else PosInfinity)"
| "js_mul PosInfinity PosInfinity = PosInfinity"
| "js_mul NegInfinity NegInfinity = PosInfinity"
| "js_mul PosInfinity NegInfinity = NegInfinity"
| "js_mul NegInfinity PosInfinity = NegInfinity"

fun js_divide :: "js_number \<Rightarrow> js_number \<Rightarrow> js_number" where
  "js_divide (Num a) (Num b) =
     (if b = 0 then (if a = 0 then NaN else if 0 < a then PosInfinity else NegInfinity)
      else to_number (a / b))"
| "js_divide NaN y = NaN"
| "js_divide x NaN = NaN"
| "js_divide (Num a) y = Num 0"
| "js_divide PosInfinity (Num b) = (if 0 \<le> b then PosInfinity else NegInfinity)"
| "js_divide NegInfinity (Num b) = (if 0 \<le> b then NegInfinity else PosInfinity)"
| "js_divide x y = NaN"

fun js_hypot :: "js_number \<Rightarrow> js_number \<Rightarrow> js_number" where
  "js_hypot (Num a) (Num b) = to_number (sqrt (a * a + b * b))"
| "js_hypot PosInfinity y = PosInfinity"
| "js_hypot NegInfinity y = PosInfinity"
| "js_hypot x PosInfinity = PosInfinity"
| "js_hypot x NegInfinity = PosInfinity"
| "js_hypot x y = NaN"

fun js_abs :: "js_number \<Rightarrow> js_number" where
  "js_abs (Num a) = Num \<bar>a\<bar>"
| "js_abs PosInfinity = PosInfinity"
| "js_abs NegInfinity = PosInfinity"
| "js_abs NaN = NaN"

fun js_greater :: "js_number \<Rightarrow> js_number \<Rightarrow> bool" where
  "js_greater (Num a) (Num b) = (b < a)"
| "js_greater PosInfinity (Num b) = True"
| "js_greater PosInfinity NegInfinity = True"
| "js_greater (Num a) NegInfinity = True"
| "js_greater x y = False"

text \<open>\<^verbatim>\<open>v < 0\<close>\<close>

definition is_negative :: "js_number \<Rightarrow> bool" where
  "is_negative v = js_greater (Num 0) v"

section \<open>Sequence generators (core/sequenceGenerators.ts)\<close>

record ('e, 'n) SequenceData =
  sequence :: "'e list"
  nodeOrder :: "'n list"

text \<open>The degree-to-hit chain of \<^verbatim>\<open>generateRhythmSequence\<close>, in the source's order.\<close>

definition rhythmHit :: "nat \<Rightarrow> string option" where
  "rhythmHit d =
     (if d \<le> 2 then None
      else if d = 3 then Some ''kick''
      else if d = 4 then Some ''snare''
      else if d = 5 then Some ''clap''
      else if d \<ge> 6 then Some ''hihat''
      else None)"

definition generateRhythmSequence :: "GridEdge list \<Rightarrow> (string option, string option) SequenceData" where
  "generateRhythmSequence edges =
     (let adj = buildAdjacency edges;
          path = longestTrail adj;
          order = pingPongToLength path 64;
          degreeMap = computeDegreeMap edges;
          events = map (\<lambda>k. rhythmHit (degree_get degreeMap k)) order
      in \<lparr>sequence = events, nodeOrder = order\<rparr>)"

subsection \<open>Node ids and pitches\<close>

text \<open>
  \<^verbatim>\<open>id.match(/r(\d+)c(\d+)/)\<close> finds the leftmost position where the pattern matches.
  At a position the match is forced: after \<^verbatim>\<open>r\<close> the greedy \<^verbatim>\<open>\d+\<close> takes the whole run
  of digits, and giving digits back cannot help, since the next character would then be a
  digit and not \<^verbatim>\<open>c\<close>; the second group takes the whole run of digits after \<^verbatim>\<open>c\<close>.
\<close>

definition is_digit :: "char \<Rightarrow> bool" where
  "is_digit ch = (ch \<in> set ''0123456789'')"

fun match_here :: "string \<Rightarrow> (string \<times> string) option" where
  "match_here [] = None"
| "match_here (ch # rest) =
     (if ch = CHR ''r'' then
        (let d1 = takeWhile is_digit rest; rest1 = dropWhile is_digit rest
         in if d1 = [] then None
            else (case rest1 of
                    [] \<Rightarrow> None
                  | c2 # rest2 \<Rightarrow>
                      if c2 = CHR ''c'' then
                        (let d2 = takeWhile is_digit rest2
                         in if d2 = [] then None else Some (d1, d2))
                      else None))
      else None)"

fun regex_match :: "string \<Rightarrow> (string \<times> string) option" where
  "regex_match [] = None"
| "regex_match (ch # rest) =
     (case match_here (ch # rest) of Some m \<Rightarrow> Some m | None \<Rightarrow> regex_match rest)"

text \<open>
  \<^verbatim>\<open>parseInt\<close> on a string of decimal digits: the number nearest to the integer that the
  digits denote. (Past the 20th significant digit ECMAScript lets an implementation read
  every digit as 0; here every digit counts, as in the engines that read the whole string.)
\<close>

definition digit_value :: "char \<Rightarrow> nat" where
  "digit_value ch = of_char ch - 48"

definition digits_value :: "string \<Rightarrow> nat" where
  "digits_value ds = foldl (\<lambda>acc ch. 10 * acc + digit_value ch) 0 ds"

definition parseInt :: "string \<Rightarrow> js_integer" where
  "parseInt ds = number_of_nat (digits_value ds)"

definition parseNodeId :: "string \<Rightarrow> js_integer \<times> js_integer" where
  "parseNodeId s =
     (case regex_match s of
        None \<Rightarrow> (Finite 0, Finite 0)
      | Some (d1, d2) \<Rightarrow> (parseInt d1, parseInt d2))"

text \<open>
  The pitch table \<^verbatim>\<open>noteMap.layout\<close> comes from \<^verbatim>\<open>assets/pin_note_map.json\<close>; it is a
  parameter \<open>layout\<close> of everything that reads it. \<^verbatim>\<open>Infinity\<close> fails the first test that
  compares it with a length.
\<close>

fun getNoteFromNode :: "int list list \<Rightarrow> js_integer \<Rightarrow> js_integer \<Rightarrow> int option" where
  "getNoteFromNode layout (Finite row) (Finite col) =
     (if row < 0 \<or> row \<ge> int (length layout) then None
      else (let rowData = layout ! nat row
            in if col < 0 \<or> col \<ge> int (length rowData) then None
               else Some (rowData ! nat col)))"
| "getNoteFromNode layout (Finite row) Infinity = None"
| "getNoteFromNode layout Infinity col = None"

record PhraseNote =
  ev_type :: string
  ev_note :: int
  ev_velocity :: real

datatype js_error = TypeError

text \<open>
  One step of the \<^verbatim>\<open>map\<close> callback of \<^verbatim>\<open>generatePhraseSequence\<close>. The id of a position can
  be \<^verbatim>\<open>undefined\<close>; \<^verbatim>\<open>parseNodeId(undefined)\<close> would raise a TypeError at \<^verbatim>\<open>id.match\<close>.
  The velocity \<^verbatim>\<open>Math.min(1, d / 6)\<close> holds the quotient as the division rounds it.
\<close>

definition phraseEvent :: "int list list \<Rightarrow> degree_map \<Rightarrow> string option \<Rightarrow> js_error + PhraseNote option" where
  "phraseEvent layout degreeMap k =
     (let d = degree_get degreeMap k
      in if d \<le> 2 then Inr None
         else (case k of
                 None \<Rightarrow> Inl TypeError
               | Some s \<Rightarrow>
                   (let (row, col) = parseNodeId s
                    in case getNoteFromNode layout row col of
                         Some n \<Rightarrow> Inr (Some \<lparr>ev_type = ''note'', ev_note = n,
                                                ev_velocity = min 1 (nearest_double (real d / 6))\<rparr>)
                       | None \<Rightarrow> Inr None)))"

text \<open>\<^verbatim>\<open>Array.prototype.map\<close> with a callback that can raise: the first error ends the call.\<close>

fun map_raising :: "('a \<Rightarrow> js_error + 'b) \<Rightarrow> 'a list \<Rightarrow> js_error + 'b list" where
  "map_raising f [] = Inr []"
| "map_raising f (x # xs) =
     (case f x of
        Inl e \<Rightarrow> Inl e
      | Inr y \<Rightarrow> (case map_raising f xs of Inl e \<Rightarrow> Inl e | Inr ys \<Rightarrow> Inr (y # ys)))"

definition generatePhraseSequence ::
  "int list list \<Rightarrow> GridEdge list \<Rightarrow> js_error + (PhraseNote option, string option) SequenceData" where
  "generatePhraseSequence layout edges =
     (let adj = buildAdjacency edges;
          path = longestTrail adj;
          order = pingPongToLength path 64;
          degreeMap = computeDegreeMap edges
      in case map_raising (phraseEvent layout degreeMap) order of
           Inl e \<Rightarrow> Inl e
         | Inr events \<Rightarrow> Inr \<lparr>sequence = events, nodeOrder = order\<rparr>)"


subsection \<open>The search, one call at a time\<close>

text \<open>
  The recursive call of \<open>dfs\<close> stands under a \<open>\<lambda>\<close>. These equations unfold one call, one
  neighbour or one start node at a time, which computes the search on a concrete graph.
\<close>

definition dfs_nexts ::
  "adjacency \<Rightarrow> string list \<Rightarrow> string list \<Rightarrow> string list \<Rightarrow> string list \<Rightarrow> string list" where
  "dfs_nexts adj visited path nexts longest =
     fold (\<lambda>next l. if next \<notin> set visited then dfs adj next visited path l else l) nexts longest"

definition trail_from :: "adjacency \<Rightarrow> string list \<Rightarrow> string list \<Rightarrow> string list" where
  "trail_from adj starts longest = fold (\<lambda>start l. dfs adj start [] [] l) starts longest"

lemma dfs_nexts_Nil: "dfs_nexts adj visited path [] longest = longest"
  by (simp add: dfs_nexts_def)

lemma dfs_nexts_Cons:
  "dfs_nexts adj visited path (n # ns) longest
   = dfs_nexts adj visited path ns (if n \<in> set visited then longest else dfs adj n visited path longest)"
  by (simp add: dfs_nexts_def)

lemma dfs_unfold:
  "dfs adj node visited path longest
   = dfs_nexts adj (set_add visited node) (path @ [node]) (neighbours adj node)
       (if length longest < Suc (length path) then path @ [node] else longest)"
  by (subst dfs.simps) (simp add: dfs_nexts_def Let_def)

lemma trail_from_Nil: "trail_from adj [] longest = longest"
  by (simp add: trail_from_def)

lemma trail_from_Cons:
  "trail_from adj (s # ss) longest = trail_from adj ss (dfs adj s [] [] longest)"
  by (simp add: trail_from_def)

lemma longestTrail_unfold: "longestTrail adj = trail_from adj (map fst adj) []"
  by (simp add: trail_from_def longestTrail_def)

lemmas dfs_eval = longestTrail_unfold trail_from_Nil trail_from_Cons
  dfs_unfold dfs_nexts_Nil dfs_nexts_Cons set_add_def neighbours_def

lemma buildAdjacency_Nil: "buildAdjacency [] = []"
  by (simp add: buildAdjacency_def)

lemma buildAdjacency_snoc:
  "buildAdjacency (edges @ [e]) = buildAdjacency_step (buildAdjacency edges) e"
  by (simp add: buildAdjacency_def)

text \<open>A star: the node \<^verbatim>\<open>r1c1\<close> joined to three others, and a pitch table of two rows.\<close>

definition star3 :: "GridEdge list" where
  "star3 =
     [\<lparr>edge_key = ''r0c0-r1c1'', edge_from = mkNode ''r1c1'', edge_to = mkNode ''r0c0''\<rparr>,
      \<lparr>edge_key = ''r0c1-r1c1'', edge_from = mkNode ''r1c1'', edge_to = mkNode ''r0c1''\<rparr>,
      \<lparr>edge_key = ''r1c0-r1c1'', edge_from = mkNode ''r1c1'', edge_to = mkNode ''r1c0''\<rparr>]"

lemma buildAdjacency_star3:
  "buildAdjacency star3
   = [(''r1c1'', [''r0c0'', ''r0c1'', ''r1c0'']), (''r0c0'', [''r1c1'']), (''r0c1'', [''r1c1'']),
      (''r1c0'', [''r1c1''])]"
  by code_simp

lemma longestTrail_star3: "longestTrail (buildAdjacency star3) = [''r0c0'', ''r1c1'', ''r0c1'']"
  unfolding buildAdjacency_star3 by (simp add: dfs_eval)

lemma computeDegreeMap_star3:
  "computeDegreeMap star3 = [(''r1c1'', 3), (''r0c0'', 1), (''r0c1'', 1), (''r1c0'', 1)]"
  by code_simp

lemma pingPongLoop_nth_prefix:
  "i < length result \<Longrightarrow> pingPongLoop path t result fwd j ! i = result ! i"
proof (induction path t result fwd j rule: pingPongLoop.induct)
  case (1 path targetLength result forward j)
  show ?case
  proof (cases "int (length result) < targetLength")
    case True
    then show ?thesis
      using 1(1)[OF True refl refl refl] 1(2)
      by (subst pingPongLoop.simps) (simp add: Let_def nth_append)
  next
    case False
    then show ?thesis by (subst pingPongLoop.simps) simp
  qed
qed

lemma nodeOrder_star3_1:
  "pingPongToLength [''r0c0'', ''r1c1'', ''r0c1''] 64 ! 1 = Some ''r1c1''"
proof -
  have "pingPongLoop [''r0c0'', ''r1c1'', ''r0c1''] 64 [] True 0
        = pingPongLoop [''r0c0'', ''r1c1'', ''r0c1''] 64 [Some ''r0c0'', Some ''r1c1''] False 2"
    by (subst pingPongLoop.simps, simp add: js_index_def, subst pingPongLoop.simps,
        simp add: js_index_def)
  then show ?thesis
    by (simp add: pingPongToLength_def pingPongLoop_nth_prefix)
qed

subsection \<open>Rounding\<close>

lemma binary_exponent_floor_log: "0 < v \<Longrightarrow> binary_exponent v = \<lfloor>log 2 v\<rfloor>"
proof (induction v rule: binary_exponent.induct)
  case (1 v)
  consider "2 \<le> v" | "v < 1" | "1 \<le> v" "v < 2" by linarith
  then show ?case
  proof cases
    case 1
    have l: "log 2 (v / 2) = log 2 v - 1" using "1.prems" by (simp add: log_divide)
    have "binary_exponent (v / 2) = \<lfloor>log 2 (v / 2)\<rfloor>"
      using "1.IH"(1) "1.prems" 1 by simp
    then have "binary_exponent v = \<lfloor>log 2 (v / 2)\<rfloor> + 1"
      using "1.prems" 1 by (subst binary_exponent.simps) simp
    then show ?thesis unfolding l by linarith
  next
    case 2
    have l: "log 2 (2 * v) = 1 + log 2 v" using "1.prems" by (simp add: log_mult)
    have "binary_exponent (2 * v) = \<lfloor>log 2 (2 * v)\<rfloor>"
      using "1.IH"(2) "1.prems" 2 by simp
    then have "binary_exponent v = \<lfloor>log 2 (2 * v)\<rfloor> - 1"
      using "1.prems" 2 by (subst binary_exponent.simps) simp
    then show ?thesis unfolding l by linarith
  next
    case 3
    have "0 \<le> log 2 v" using 3 by simp
    moreover have "log 2 v < 1" using 3 "1.prems" by (simp add: log_less_iff)
    ultimately have "\<lfloor>log 2 v\<rfloor> = 0" by linarith
    then show ?thesis using 3 "1.prems" by (subst binary_exponent.simps) simp
  qed
qed

lemma nearest_double_eq:
  "nearest_double v =
     (if v = 0 then 0
      else (let e = max (\<lfloor>log 2 \<bar>v\<bar>\<rfloor> - 52) (- 1074)
            in real_of_int (round_half_even (v / 2 powi e)) * 2 powi e))"
  by (simp add: nearest_double_def binary_exponent_floor_log)

lemma round_half_even_of_int: "round_half_even (real_of_int n) = n"
  by (simp add: round_half_even_def)

lemma round_half_even_ge_floor: "\<lfloor>m\<rfloor> \<le> round_half_even m"
  by (simp add: round_half_even_def Let_def)

lemma floor_log2:
  assumes "0 < v" "2 powi k \<le> v" "v < 2 powi (k + 1)"
  shows "\<lfloor>log 2 v\<rfloor> = k"
proof -
  have p1: "2 powr (real_of_int k) = (2::real) powi k"
    by (simp add: powr_real_of_int')
  have "2 powr (real_of_int (k + 1)) = (2::real) powi (k + 1)"
    by (rule powr_real_of_int') simp_all
  then have p2: "2 powr (real_of_int k + 1) = (2::real) powi (k + 1)"
    by (simp add: add.commute)
  have "2 powr (real_of_int k) \<le> v \<and> v < 2 powr (real_of_int k + 1)"
    using assms p1 p2 by simp
  then show ?thesis using assms(1) by (simp add: floor_log_eq_powr_iff)
qed

lemma nearest_double_between:
  assumes "0 < v" "2 powi k \<le> v" "v < 2 powi (k + 1)" "- 1022 \<le> k"
  shows "nearest_double v = real_of_int (round_half_even (v / 2 powi (k - 52))) * 2 powi (k - 52)"
proof -
  have "\<lfloor>log 2 \<bar>v\<bar>\<rfloor> = k" using floor_log2[OF assms(1,2,3)] assms(1) by simp
  moreover have "max (k - 52) (- 1074) = k - 52" using assms(4) by simp
  ultimately show ?thesis using assms(1) by (simp add: nearest_double_eq Let_def)
qed

lemma nearest_double_of_nat:
  assumes "n < 2 ^ 53"
  shows "nearest_double (real n) = real n"
proof (cases "n = 0")
  case True
  then show ?thesis by (simp add: nearest_double_eq)
next
  case False
  define e where "e = max (\<lfloor>log 2 \<bar>real n\<bar>\<rfloor> - 52) (- 1074)"
  have pos: "0 < real n" using False by simp
  have "real n < real (2 ^ 53)" using assms by (simp only: of_nat_less_iff)
  then have "real n < 2 ^ 53" by (simp only: of_nat_power of_nat_numeral)
  moreover have "(2::real) powr 53 = 2 ^ 53" by (rule powr_numeral) simp
  ultimately have "real n < 2 powr 53" by (simp only:)
  then have "log 2 (real n) < 53" using pos by (simp add: log_less_iff)
  then have "\<lfloor>log 2 (real n)\<rfloor> \<le> 52" by linarith
  then have e0: "e \<le> 0" unfolding e_def by simp
  obtain j :: nat where j: "e = - int j" using e0 by (metis nat_0_le neg_le_0_iff_le minus_minus)
  have pw: "(2::real) powi e = inverse (2 ^ j)"
    unfolding j by (simp only: power_int_minus power_int_of_nat)
  have "real n / 2 powi e = real n * 2 ^ j"
    unfolding pw by (simp add: divide_inverse)
  also have "\<dots> = real_of_int (int n * 2 ^ j)" by simp
  finally have m: "real n / 2 powi e = real_of_int (int n * 2 ^ j)" .
  have "nearest_double (real n) = real_of_int (round_half_even (real n / 2 powi e)) * 2 powi e"
    using False by (simp add: nearest_double_eq Let_def e_def)
  also have "\<dots> = real_of_int (int n * 2 ^ j) * 2 powi e"
    unfolding m round_half_even_of_int ..
  also have "\<dots> = real n"
    unfolding pw by simp
  finally show ?thesis .
qed

lemma nearest_double_ge_1:
  assumes "1 \<le> x"
  shows "1 \<le> nearest_double x"
proof -
  define k where "k = \<lfloor>log 2 x\<rfloor>"
  have pos: "0 < x" using assms by simp
  have k0: "0 \<le> k" unfolding k_def using assms by simp
  have "2 powr (real_of_int k) \<le> x" unfolding k_def using pos
    by (metis floor_log_eq_powr_iff one_less_numeral_iff semiring_norm(76))
  then have lo: "2 powi k \<le> x" by (simp add: powr_real_of_int')
  have e: "max (k - 52) (- 1074) = k - 52" using k0 by simp
  have nd: "nearest_double x = real_of_int (round_half_even (x / 2 powi (k - 52))) * 2 powi (k - 52)"
    using pos e by (simp add: nearest_double_eq Let_def k_def)
  have "(2::real) powi k / 2 powi (k - 52) = 2 powi 52"
    by (simp add: power_int_diff)
  then have "2 powi 52 \<le> x / 2 powi (k - 52)"
    using lo by (metis divide_right_mono zero_le_numeral zero_le_power_int)
  then have "(2::real) ^ 52 \<le> x / 2 powi (k - 52)" by simp
  then have "(2::int) ^ 52 \<le> \<lfloor>x / 2 powi (k - 52)\<rfloor>" by (simp add: le_floor_iff)
  then have "(2::int) ^ 52 \<le> round_half_even (x / 2 powi (k - 52))"
    using round_half_even_ge_floor[of "x / 2 powi (k - 52)"] by linarith
  then have "(2::real) ^ 52 \<le> real_of_int (round_half_even (x / 2 powi (k - 52)))"
    by (metis of_int_le_iff of_int_numeral of_int_power)
  then have "(2::real) powi 52 * 2 powi (k - 52) \<le> nearest_double x"
    unfolding nd by (simp add: mult_right_mono)
  moreover have "(2::real) powi 52 * 2 powi (k - 52) = 2 powi k"
  proof -
    have "(2::real) powi (52 + (k - 52)) = 2 powi 52 * 2 powi (k - 52)"
      by (rule power_int_add) simp
    then show ?thesis by simp
  qed
  moreover have "(1::real) \<le> 2 powi k" using k0 by (simp add: one_le_power_int)
  ultimately show ?thesis by linarith
qed

lemma round_half_even_eq:
  assumes "real_of_int n - 1 / 2 < m" "m < real_of_int n + 1 / 2"
  shows "round_half_even m = n"
proof -
  have "\<lfloor>m\<rfloor> = n \<or> \<lfloor>m\<rfloor> = n - 1" using assms by linarith
  then show ?thesis
  proof
    assume f: "\<lfloor>m\<rfloor> = n"
    then have "m - real_of_int \<lfloor>m\<rfloor> < 1 / 2" using assms by simp
    then show ?thesis using f by (simp add: round_half_even_def Let_def)
  next
    assume f: "\<lfloor>m\<rfloor> = n - 1"
    then have "m - real_of_int \<lfloor>m\<rfloor> > 1 / 2" using assms by simp
    then show ?thesis using f by (simp add: round_half_even_def Let_def)
  qed
qed

lemma nearest_double_half: "nearest_double (3 / 6) = 1 / 2"
proof -
  have "nearest_double (3 / 6) = real_of_int (round_half_even ((3 / 6) / 2 powi (-1 - 52))) * 2 powi (-1 - 52)"
    by (rule nearest_double_between) (simp_all add: power_int_minus)
  moreover have "(3 / 6 :: real) / 2 powi (-1 - 52) = real_of_int 4503599627370496"
    by (simp add: power_int_minus)
  ultimately show ?thesis by (simp only: round_half_even_of_int) (simp add: power_int_minus)
qed

lemma nearest_double_two_thirds: "nearest_double (4 / 6) = 6004799503160661 / 2 ^ 53"
proof -
  have "nearest_double (4 / 6) = real_of_int (round_half_even ((4 / 6) / 2 powi (-1 - 52))) * 2 powi (-1 - 52)"
    by (rule nearest_double_between) (simp_all add: power_int_minus)
  moreover have "round_half_even ((4 / 6) / 2 powi (-1 - 52)) = 6004799503160661"
    by (rule round_half_even_eq) (simp_all add: power_int_minus)
  ultimately show ?thesis by (simp add: power_int_minus)
qed

lemma nearest_double_five_sixths: "nearest_double (5 / 6) = 7505999378950827 / 2 ^ 53"
proof -
  have "nearest_double (5 / 6) = real_of_int (round_half_even ((5 / 6) / 2 powi (-1 - 52))) * 2 powi (-1 - 52)"
    by (rule nearest_double_between) (simp_all add: power_int_minus)
  moreover have "round_half_even ((5 / 6) / 2 powi (-1 - 52)) = 7505999378950827"
    by (rule round_half_even_eq) (simp_all add: power_int_minus)
  ultimately show ?thesis by (simp add: power_int_minus)
qed

lemma nearest_double_1e21: "nearest_double (10 ^ 21) = 10 ^ 21"
proof -
  have "nearest_double (10 ^ 21) = real_of_int (round_half_even ((10 ^ 21) / 2 powi (69 - 52))) * 2 powi (69 - 52)"
    by (rule nearest_double_between) simp_all
  moreover have "((10::real) ^ 21) / 2 powi (69 - 52) = real_of_int 7629394531250000"
    by simp
  ultimately show ?thesis by (simp only: round_half_even_of_int) simp
qed

text \<open>\<open>2 ^ 53 + 1\<close> lies halfway between two numbers; the nearer even one is \<open>2 ^ 53\<close>.\<close>

lemma nearest_double_2_53: "nearest_double 9007199254740992 = 9007199254740992"
proof -
  have "nearest_double 9007199254740992
        = real_of_int (round_half_even (9007199254740992 / 2 powi (53 - 52))) * 2 powi (53 - 52)"
    by (rule nearest_double_between) simp_all
  moreover have "(9007199254740992::real) / 2 powi (53 - 52) = real_of_int 4503599627370496"
    by simp
  ultimately show ?thesis by (simp only: round_half_even_of_int) simp
qed

lemma nearest_double_2_53_plus_1: "nearest_double 9007199254740993 = 9007199254740992"
proof -
  have "nearest_double 9007199254740993
        = real_of_int (round_half_even (9007199254740993 / 2 powi (53 - 52))) * 2 powi (53 - 52)"
    by (rule nearest_double_between) simp_all
  moreover have "round_half_even (9007199254740993 / 2 powi (53 - 52)) = 4503599627370496"
  proof -
    have "\<lfloor>9007199254740993 / 2 :: real\<rfloor> = 4503599627370496" by (simp add: floor_eq_iff)
    then show ?thesis by (simp add: round_half_even_def Let_def)
  qed
  ultimately show ?thesis by simp
qed

lemma number_of_nat_2_53:
  "number_of_nat 9007199254740992 = Finite 9007199254740992"
  "number_of_nat 9007199254740993 = Finite 9007199254740992"
  by (simp_all add: number_of_nat_def nearest_double_2_53 nearest_double_2_53_plus_1)

lemma number_of_nat_small:
  assumes "n < 2 ^ 53"
  shows "number_of_nat n = Finite (int n)"
proof -
  have "real n < real (2 ^ 53)" using assms by (simp only: of_nat_less_iff)
  then have "real n < 2 ^ 53" by (simp only: of_nat_power of_nat_numeral)
  then have "\<not> (2::real) ^ 1024 \<le> real n" by simp
  then show ?thesis by (simp add: number_of_nat_def nearest_double_of_nat[OF assms])
qed

lemma number_of_nat_1e21: "number_of_nat (10 ^ 21) = Finite (10 ^ 21)"
proof -
  have "nearest_double (real ((10::nat) ^ 21)) = 10 ^ 21"
    using nearest_double_1e21 by simp
  then show ?thesis by (simp add: number_of_nat_def)
qed

lemma nearest_double_of_int:
  assumes "\<bar>i\<bar> < 2 ^ 53"
  shows "nearest_double (real_of_int i) = real_of_int i"
proof (cases "i = 0")
  case True
  then show ?thesis by (simp add: nearest_double_eq)
next
  case False
  define e where "e = max (\<lfloor>log 2 \<bar>real_of_int i\<bar>\<rfloor> - 52) (- 1074)"
  have pos: "0 < \<bar>real_of_int i\<bar>" using False by simp
  have "real_of_int \<bar>i\<bar> < real_of_int (2 ^ 53)" using assms by (simp only: of_int_less_iff)
  then have "\<bar>real_of_int i\<bar> < 2 ^ 53" by simp
  moreover have "(2::real) powr 53 = 2 ^ 53" by (rule powr_numeral) simp
  ultimately have "\<bar>real_of_int i\<bar> < 2 powr 53" by (simp only:)
  then have "log 2 \<bar>real_of_int i\<bar> < 53" using pos by (simp add: log_less_iff)
  then have "\<lfloor>log 2 \<bar>real_of_int i\<bar>\<rfloor> \<le> 52" by linarith
  then have e0: "e \<le> 0" unfolding e_def by simp
  obtain j :: nat where j: "e = - int j" using e0 by (metis nat_0_le neg_le_0_iff_le minus_minus)
  have pw: "(2::real) powi e = inverse (2 ^ j)"
    unfolding j by (simp only: power_int_minus power_int_of_nat)
  have "real_of_int i / 2 powi e = real_of_int i * 2 ^ j"
    unfolding pw by (simp add: divide_inverse)
  also have "\<dots> = real_of_int (i * 2 ^ j)" by simp
  finally have m: "real_of_int i / 2 powi e = real_of_int (i * 2 ^ j)" .
  have "nearest_double (real_of_int i) = real_of_int (round_half_even (real_of_int i / 2 powi e)) * 2 powi e"
    using False by (simp add: nearest_double_eq Let_def e_def)
  also have "\<dots> = real_of_int (i * 2 ^ j) * 2 powi e"
    unfolding m round_half_even_of_int ..
  also have "\<dots> = real_of_int i"
    unfolding pw by simp
  finally show ?thesis .
qed

lemma to_number_of_int:
  assumes "\<bar>i\<bar> < 2 ^ 53"
  shows "to_number (real_of_int i) = Num (real_of_int i)"
proof -
  have "real_of_int \<bar>i\<bar> < real_of_int (2 ^ 53)" using assms by (simp only: of_int_less_iff)
  then have "\<bar>real_of_int i\<bar> < 2 ^ 53" by simp
  then have "\<not> (2::real) ^ 1024 \<le> real_of_int i" "\<not> real_of_int i \<le> - (2 ^ 1024)" by simp_all
  then show ?thesis by (simp add: to_number_def nearest_double_of_int[OF assms])
qed

lemma round_half_even_nonneg: "0 \<le> m \<Longrightarrow> 0 \<le> round_half_even m"
  using round_half_even_ge_floor[of m] by (simp add: order_trans[of 0 "\<lfloor>m\<rfloor>"])

lemma nearest_double_nonneg:
  assumes "0 \<le> v"
  shows "0 \<le> nearest_double v"
proof (cases "v = 0")
  case True
  then show ?thesis by (simp add: nearest_double_eq)
next
  case False
  define e where "e = max (\<lfloor>log 2 \<bar>v\<bar>\<rfloor> - 52) (- 1074)"
  have "0 \<le> v / 2 powi e" using assms by simp
  then have "0 \<le> round_half_even (v / 2 powi e)" by (rule round_half_even_nonneg)
  then have "0 \<le> real_of_int (round_half_even (v / 2 powi e)) * 2 powi e" by simp
  then show ?thesis using False by (simp add: nearest_double_eq Let_def e_def)
qed

lemma nearest_double_grid: "\<exists>n::int. nearest_double v = real_of_int n * 2 powi (- 1074)"
proof (cases "v = 0")
  case True
  then show ?thesis by (intro exI[of _ 0]) (simp add: nearest_double_eq)
next
  case False
  define e where "e = max (\<lfloor>log 2 \<bar>v\<bar>\<rfloor> - 52) (- 1074)"
  define g :: real where "g = 2 powi (- 1074)"
  have e: "0 \<le> e + 1074" unfolding e_def by simp
  then obtain j :: nat where j: "e + 1074 = int j" using nonneg_int_cases by blast
  have "(2::real) powi (int j + (- 1074)) = 2 powi (int j) * 2 powi (- 1074)"
    by (rule power_int_add) simp
  moreover have "int j + (- 1074) = e" using j by simp
  ultimately have "(2::real) powi e = 2 powi (int j) * g" unfolding g_def by (simp only:)
  then have pw: "(2::real) powi e = 2 ^ j * g" by (simp only: power_int_of_nat)
  have "nearest_double v = real_of_int (round_half_even (v / 2 powi e)) * 2 powi e"
    using False by (simp add: nearest_double_eq Let_def e_def)
  also have "\<dots> = real_of_int (round_half_even (v / 2 powi e)) * (2 ^ j * g)"
    by (simp only: pw)
  also have "\<dots> = real_of_int (round_half_even (v / 2 powi e) * 2 ^ j) * g"
    by simp
  finally show ?thesis unfolding g_def by blast
qed

lemma round_half_even_le_floor: "round_half_even m \<le> \<lfloor>m\<rfloor> + 1"
  by (simp add: round_half_even_def Let_def)

lemma round_half_even_le_minus_one:
  assumes "m \<le> - 1"
  shows "round_half_even m \<le> - 1"
proof (cases "\<lfloor>m\<rfloor> \<le> - 2")
  case True
  then show ?thesis using round_half_even_le_floor[of m] by linarith
next
  case False
  moreover have "\<lfloor>m\<rfloor> \<le> - 1" using assms by linarith
  ultimately have f: "\<lfloor>m\<rfloor> = - 1" by linarith
  then have "m = - 1" using assms by linarith
  then show ?thesis using round_half_even_of_int[of "- 1"] by simp
qed

lemma nearest_double_negative:
  assumes "x \<le> - (2 powi (- 1074))"
  shows "nearest_double x < 0"
proof -
  define k where "k = \<lfloor>log 2 \<bar>x\<bar>\<rfloor>"
  define e where "e = max (k - 52) (- 1074)"
  have g: "(0::real) < 2 powi (- 1074)" by simp
  have neg: "x < 0" using assms g by linarith
  then have pos: "0 < \<bar>x\<bar>" by simp
  have "2 powr (real_of_int k) \<le> \<bar>x\<bar>" unfolding k_def using pos
    by (metis floor_log_eq_powr_iff one_less_numeral_iff semiring_norm(76))
  then have lo: "2 powi k \<le> \<bar>x\<bar>" by (simp add: powr_real_of_int')
  have "(2::real) powi (k - 52) \<le> 2 powi k" by (rule power_int_increasing) simp_all
  then have "2 powi (k - 52) \<le> \<bar>x\<bar>" using lo by linarith
  moreover have "2 powi (- 1074) \<le> \<bar>x\<bar>" using assms neg by simp
  ultimately have "2 powi e \<le> \<bar>x\<bar>" unfolding e_def max_def by simp
  then have "2 powi e \<le> - x" using neg by simp
  moreover have p: "(0::real) < 2 powi e" by simp
  ultimately have "x / 2 powi e \<le> - 1" by (simp add: pos_divide_le_eq)
  then have "round_half_even (x / 2 powi e) \<le> - 1" by (rule round_half_even_le_minus_one)
  then have "real_of_int (round_half_even (x / 2 powi e)) \<le> - 1" by linarith
  then have "real_of_int (round_half_even (x / 2 powi e)) * 2 powi e < 0"
    using p by (simp add: mult_less_0_iff)
  then show ?thesis using neg by (simp add: nearest_double_eq Let_def e_def k_def)
qed

lemma nearest_double_difference:
  assumes "a = real_of_int na * 2 powi (- 1074)" "b = real_of_int nb * 2 powi (- 1074)"
  shows "(nearest_double (b - a) < 0) = (b < a)"
proof (cases "b < a")
  case True
  have g: "(0::real) < 2 powi (- 1074)" by simp
  have "nb < na" using True g unfolding assms by (simp add: mult_less_cancel_right)
  then have "real_of_int nb - real_of_int na \<le> - 1" by linarith
  then have "(real_of_int nb - real_of_int na) * 2 powi (- 1074) \<le> (- 1) * 2 powi (- 1074)"
    using g by (simp only: mult_le_cancel_right) simp
  then have "b - a \<le> - (2 powi (- 1074))" unfolding assms by (simp add: algebra_simps)
  then show ?thesis using True nearest_double_negative by blast
next
  case False
  then have "0 \<le> b - a" by simp
  then have "0 \<le> nearest_double (b - a)" by (rule nearest_double_nonneg)
  then show ?thesis using False by simp
qed

lemma round_half_even_minus: "round_half_even (- m) = - round_half_even m"
proof (cases "m = real_of_int \<lfloor>m\<rfloor>")
  case True
  then have "- m = real_of_int (- \<lfloor>m\<rfloor>)" by simp
  then have "round_half_even (- m) = - \<lfloor>m\<rfloor>" by (metis round_half_even_of_int)
  moreover have "round_half_even m = \<lfloor>m\<rfloor>" using True by (metis round_half_even_of_int)
  ultimately show ?thesis by simp
next
  case False
  define f where "f = \<lfloor>m\<rfloor>"
  define r where "r = m - real_of_int f"
  have r: "0 < r" "r < 1" using False unfolding r_def f_def by linarith+
  have fl: "\<lfloor>- m\<rfloor> = - f - 1" unfolding f_def using False by linarith
  have r': "- m - real_of_int (- f - 1) = 1 - r" unfolding r_def by simp
  have a: "round_half_even m = (if r < 1 / 2 then f else if r > 1 / 2 then f + 1
                                else if even f then f else f + 1)"
    by (simp add: round_half_even_def Let_def f_def r_def)
  have b: "round_half_even (- m) = (if 1 - r < 1 / 2 then - f - 1 else if 1 - r > 1 / 2 then - f
                                else if even (- f - 1) then - f - 1 else - f)"
    unfolding round_half_even_def Let_def fl r' by simp
  consider "r < 1 / 2" | "r > 1 / 2" | "r = 1 / 2" by linarith
  then show ?thesis
  proof cases
    case 1
    then show ?thesis unfolding a b by simp
  next
    case 2
    then show ?thesis unfolding a b by simp
  next
    case 3
    then show ?thesis unfolding a b by simp
  qed
qed

lemma nearest_double_minus: "nearest_double (- v) = - nearest_double v"
  by (simp add: nearest_double_eq Let_def round_half_even_minus)

lemma is_negative_to_number: "is_negative (to_number x) = (nearest_double x < 0)"
  by (simp add: is_negative_def to_number_def Let_def)

subsection \<open>Degrees\<close>

lemma degree_get_bump:
  "degree_get (degree_bump m k) (Some a) = degree_get m (Some a) + (if a = k then 1 else 0)"
  by (simp add: degree_bump_def degree_get_def map_of_map_set)

lemma degree_get_step:
  "degree_get (computeDegreeMap_step m e) (Some a)
   = degree_get m (Some a) + (if a = node_id (edge_from e) then 1 else 0)
       + (if a = node_id (edge_to e) then 1 else 0)"
  by (simp add: computeDegreeMap_step_def degree_get_bump)

lemma degree_get_foldl:
  "degree_get (foldl computeDegreeMap_step m edges) (Some a)
   = degree_get m (Some a) + length (filter (\<lambda>e. node_id (edge_from e) = a) edges)
       + length (filter (\<lambda>e. node_id (edge_to e) = a) edges)"
  by (induction edges arbitrary: m) (auto simp: degree_get_step)

lemma degree_get_computeDegreeMap:
  "degree_get (computeDegreeMap edges) (Some a)
   = length (filter (\<lambda>e. node_id (edge_from e) = a) edges)
       + length (filter (\<lambda>e. node_id (edge_to e) = a) edges)"
  by (simp add: computeDegreeMap_def degree_get_foldl) (simp add: degree_get_def)

subsection \<open>Rhythm\<close>

lemma generateRhythmSequence_fields:
  "nodeOrder (generateRhythmSequence edges) = pingPongToLength (longestTrail (buildAdjacency edges)) 64"
  "sequence (generateRhythmSequence edges)
   = map (\<lambda>k. rhythmHit (degree_get (computeDegreeMap edges) k))
       (pingPongToLength (longestTrail (buildAdjacency edges)) 64)"
  by (simp_all add: generateRhythmSequence_def Let_def)

text \<open>
  C7. At every position of the rhythm sequence the event is decided by the degree \<open>d\<close> of
  the node of that position, read from \<^verbatim>\<open>computeDegreeMap\<close> (0 when the id is absent or
  \<^verbatim>\<open>undefined\<close>): a rest when \<open>d \<le> 2\<close>, kick at 3, snare at 4, clap at 5, hihat from 6 on.
  The degree of an id is the number of edge ends that carry it.
\<close>

theorem generateRhythmSequence_hits:
  "length (sequence (generateRhythmSequence edges)) = length (nodeOrder (generateRhythmSequence edges))
   \<and> (\<forall>i < length (nodeOrder (generateRhythmSequence edges)).
        let d = degree_get (computeDegreeMap edges) (nodeOrder (generateRhythmSequence edges) ! i);
            ev = sequence (generateRhythmSequence edges) ! i
        in (d \<le> 2 \<longrightarrow> ev = None) \<and> (d = 3 \<longrightarrow> ev = Some ''kick'')
           \<and> (d = 4 \<longrightarrow> ev = Some ''snare'') \<and> (d = 5 \<longrightarrow> ev = Some ''clap'')
           \<and> (d \<ge> 6 \<longrightarrow> ev = Some ''hihat''))
   \<and> (\<forall>a. degree_get (computeDegreeMap edges) (Some a)
          = length (filter (\<lambda>e. node_id (edge_from e) = a) edges)
            + length (filter (\<lambda>e. node_id (edge_to e) = a) edges))
   \<and> degree_get (computeDegreeMap edges) None = 0"
proof (intro conjI allI impI)
  show "length (sequence (generateRhythmSequence edges)) = length (nodeOrder (generateRhythmSequence edges))"
    by (simp add: generateRhythmSequence_fields)
next
  fix i assume "i < length (nodeOrder (generateRhythmSequence edges))"
  then have "sequence (generateRhythmSequence edges) ! i
        = rhythmHit (degree_get (computeDegreeMap edges) (nodeOrder (generateRhythmSequence edges) ! i))"
    by (simp add: generateRhythmSequence_fields)
  then show "let d = degree_get (computeDegreeMap edges) (nodeOrder (generateRhythmSequence edges) ! i);
            ev = sequence (generateRhythmSequence edges) ! i
        in (d \<le> 2 \<longrightarrow> ev = None) \<and> (d = 3 \<longrightarrow> ev = Some ''kick'')
           \<and> (d = 4 \<longrightarrow> ev = Some ''snare'') \<and> (d = 5 \<longrightarrow> ev = Some ''clap'')
           \<and> (d \<ge> 6 \<longrightarrow> ev = Some ''hihat'')"
    by (simp add: Let_def rhythmHit_def)
next
  fix a show "degree_get (computeDegreeMap edges) (Some a)
          = length (filter (\<lambda>e. node_id (edge_from e) = a) edges)
            + length (filter (\<lambda>e. node_id (edge_to e) = a) edges)"
    by (rule degree_get_computeDegreeMap)
next
  show "degree_get (computeDegreeMap edges) None = 0" by (simp add: degree_get_def)
qed

theorem generateRhythmSequence_hits_witness:
  "nodeOrder (generateRhythmSequence star3) ! 1 = Some ''r1c1''
   \<and> degree_get (computeDegreeMap star3) (Some ''r1c1'') = 3
   \<and> sequence (generateRhythmSequence star3) ! 1 = Some ''kick''"
proof -
  have n: "nodeOrder (generateRhythmSequence star3) ! 1 = Some ''r1c1''"
    by (simp only: generateRhythmSequence_fields longestTrail_star3 nodeOrder_star3_1)
  have len: "1 < length (nodeOrder (generateRhythmSequence star3))"
    by (simp add: generateRhythmSequence_fields longestTrail_star3 pingPongToLength_length)
  have d: "degree_get (computeDegreeMap star3) (Some ''r1c1'') = 3"
    by (simp add: computeDegreeMap_star3 degree_get_def)
  show ?thesis
    using generateRhythmSequence_hits[of star3] n len d by (auto simp: Let_def)
qed

subsection \<open>Phrase\<close>

lemma phraseEvent_None: "phraseEvent layout dm None = Inr None"
  by (simp add: phraseEvent_def degree_get_def)

lemma phraseEvent_Some:
  "phraseEvent layout dm (Some s)
   = Inr (if degree_get dm (Some s) \<le> 2 then None
          else (case getNoteFromNode layout (fst (parseNodeId s)) (snd (parseNodeId s)) of
                  Some n \<Rightarrow> Some \<lparr>ev_type = ''note'', ev_note = n,
                                    ev_velocity = min 1 (nearest_double (real (degree_get dm (Some s)) / 6))\<rparr>
                | None \<Rightarrow> None))"
  by (simp add: phraseEvent_def Let_def split: prod.splits option.splits)

lemma phraseEvent_total: "\<exists>y. phraseEvent layout dm k = Inr y"
  by (cases k) (simp_all add: phraseEvent_None phraseEvent_Some)

lemma map_raising_total:
  assumes "\<And>x. \<exists>y. f x = Inr y"
  shows "\<exists>ys. map_raising f xs = Inr ys \<and> length ys = length xs
          \<and> (\<forall>i < length xs. f (xs ! i) = Inr (ys ! i))"
proof (induction xs)
  case Nil
  then show ?case by simp
next
  case (Cons x xs)
  from assms obtain y where y: "f x = Inr y" by blast
  from Cons obtain ys where ys: "map_raising f xs = Inr ys" "length ys = length xs"
    "\<forall>i < length xs. f (xs ! i) = Inr (ys ! i)" by blast
  have "map_raising f (x # xs) = Inr (y # ys)" using y ys(1) by simp
  moreover have "\<forall>i < length (x # xs). f ((x # xs) ! i) = Inr ((y # ys) ! i)"
    using y ys(3) by (auto simp: nth_Cons split: nat.splits)
  ultimately show ?case using ys(2) by auto
qed

lemma generatePhraseSequence_Inr:
  "\<exists>r. generatePhraseSequence layout edges = Inr r
       \<and> nodeOrder r = pingPongToLength (longestTrail (buildAdjacency edges)) 64
       \<and> length (sequence r) = length (nodeOrder r)
       \<and> (\<forall>i < length (nodeOrder r).
             phraseEvent layout (computeDegreeMap edges) (nodeOrder r ! i) = Inr (sequence r ! i))"
proof -
  let ?order = "pingPongToLength (longestTrail (buildAdjacency edges)) 64"
  obtain ys where ys: "map_raising (phraseEvent layout (computeDegreeMap edges)) ?order = Inr ys"
    "length ys = length ?order"
    "\<forall>i < length ?order. phraseEvent layout (computeDegreeMap edges) (?order ! i) = Inr (ys ! i)"
    using map_raising_total[of "phraseEvent layout (computeDegreeMap edges)" ?order]
      phraseEvent_total by blast
  have "generatePhraseSequence layout edges = Inr \<lparr>sequence = ys, nodeOrder = ?order\<rparr>"
    using ys(1) by (simp add: generatePhraseSequence_def Let_def)
  then show ?thesis using ys(2,3) by simp
qed

lemma getNoteFromNode_in_table:
  "0 \<le> row \<and> row < int (length layout) \<and> 0 \<le> col \<and> col < int (length (layout ! nat row))
   \<Longrightarrow> getNoteFromNode layout (Finite row) (Finite col) = Some (layout ! nat row ! nat col)"
  by (simp add: Let_def)

lemma getNoteFromNode_None_iff:
  "(getNoteFromNode layout row col = None)
   = (\<forall>r c. row = Finite r \<and> col = Finite c
         \<longrightarrow> r < 0 \<or> int (length layout) \<le> r \<or> c < 0 \<or> int (length (layout ! nat r)) \<le> c)"
  by (cases row; cases col) (auto simp: Let_def)

lemma velocity_values:
  "min 1 (nearest_double (real (3::nat) / 6)) = 1 / 2"
  "min 1 (nearest_double (real (4::nat) / 6)) = 6004799503160661 / 2 ^ 53"
  "min 1 (nearest_double (real (5::nat) / 6)) = 7505999378950827 / 2 ^ 53"
  using nearest_double_half nearest_double_two_thirds nearest_double_five_sixths by simp_all

lemma velocity_saturates:
  assumes "6 \<le> d"
  shows "min 1 (nearest_double (real d / 6)) = 1"
proof -
  have "1 \<le> real d / 6" using assms by simp
  then have "1 \<le> nearest_double (real d / 6)" by (rule nearest_double_ge_1)
  then show ?thesis by simp
qed

text \<open>
  C8. \<^verbatim>\<open>generatePhraseSequence\<close> never raises. At every position with degree \<open>d\<close>: a rest
  when \<open>d \<le> 2\<close>; when \<open>d \<ge> 3\<close> the position has an id, and with \<open>row\<close> and \<open>col\<close> the numbers
  that \<^verbatim>\<open>parseNodeId\<close> reads from the id, the event is the note of pitch
  \<^verbatim>\<open>layout[row][col]\<close> when \<open>row\<close> and \<open>col\<close> are inside the table, and a rest when the lookup
  finds no pitch. The lookup returns \<^verbatim>\<open>layout[row][col]\<close> inside the table, and finds no
  pitch exactly when the row or the column is outside it (\<^verbatim>\<open>Infinity\<close> is outside). The
  velocity is the number \<^verbatim>\<open>Math.min(1, d / 6)\<close>: 0.5 at degree 3, the numbers nearest to 2/3
  and to 5/6 at degrees 4 and 5 (0.6666666666666666 and 0.8333333333333334), and 1 from
  degree 6 on.
\<close>

theorem generatePhraseSequence_events:
  "(\<forall>row col. 0 \<le> row \<and> row < int (length layout) \<and> 0 \<le> col \<and> col < int (length (layout ! nat row))
        \<longrightarrow> getNoteFromNode layout (Finite row) (Finite col) = Some (layout ! nat row ! nat col))
   \<and> (\<forall>row col. (getNoteFromNode layout row col = None)
        = (\<forall>r c. row = Finite r \<and> col = Finite c
              \<longrightarrow> r < 0 \<or> int (length layout) \<le> r \<or> c < 0 \<or> int (length (layout ! nat r)) \<le> c))
   \<and> (\<exists>r. generatePhraseSequence layout edges = Inr r
     \<and> length (sequence r) = length (nodeOrder r)
     \<and> (\<forall>i < length (nodeOrder r).
          let d = degree_get (computeDegreeMap edges) (nodeOrder r ! i) in
            (d \<le> 2 \<longrightarrow> sequence r ! i = None)
          \<and> (3 \<le> d \<longrightarrow>
               (\<exists>s. nodeOrder r ! i = Some s
                  \<and> (\<forall>row col. parseNodeId s = (Finite row, Finite col)
                         \<and> 0 \<le> row \<and> row < int (length layout)
                         \<and> 0 \<le> col \<and> col < int (length (layout ! nat row))
                       \<longrightarrow> sequence r ! i
                           = Some \<lparr>ev_type = ''note'', ev_note = layout ! nat row ! nat col,
                                   ev_velocity = min 1 (nearest_double (real d / 6))\<rparr>)
                  \<and> (case getNoteFromNode layout (fst (parseNodeId s)) (snd (parseNodeId s)) of
                        Some p \<Rightarrow> sequence r ! i
                                  = Some \<lparr>ev_type = ''note'', ev_note = p,
                                          ev_velocity = min 1 (nearest_double (real d / 6))\<rparr>
                      | None \<Rightarrow> sequence r ! i = None)))))
   \<and> min 1 (nearest_double (real (3::nat) / 6)) = 1 / 2
   \<and> min 1 (nearest_double (real (4::nat) / 6)) = 6004799503160661 / 2 ^ 53
   \<and> min 1 (nearest_double (real (5::nat) / 6)) = 7505999378950827 / 2 ^ 53
   \<and> (\<forall>d\<ge>6. min 1 (nearest_double (real d / 6)) = 1)"
proof -
  obtain r where r: "generatePhraseSequence layout edges = Inr r"
    "length (sequence r) = length (nodeOrder r)"
    "\<forall>i < length (nodeOrder r).
        phraseEvent layout (computeDegreeMap edges) (nodeOrder r ! i) = Inr (sequence r ! i)"
    using generatePhraseSequence_Inr[of layout edges] by blast
  have pos: "let d = degree_get (computeDegreeMap edges) (nodeOrder r ! i) in
            (d \<le> 2 \<longrightarrow> sequence r ! i = None)
          \<and> (3 \<le> d \<longrightarrow>
               (\<exists>s. nodeOrder r ! i = Some s
                  \<and> (\<forall>row col. parseNodeId s = (Finite row, Finite col)
                         \<and> 0 \<le> row \<and> row < int (length layout)
                         \<and> 0 \<le> col \<and> col < int (length (layout ! nat row))
                       \<longrightarrow> sequence r ! i
                           = Some \<lparr>ev_type = ''note'', ev_note = layout ! nat row ! nat col,
                                   ev_velocity = min 1 (nearest_double (real d / 6))\<rparr>)
                  \<and> (case getNoteFromNode layout (fst (parseNodeId s)) (snd (parseNodeId s)) of
                        Some p \<Rightarrow> sequence r ! i
                                  = Some \<lparr>ev_type = ''note'', ev_note = p,
                                          ev_velocity = min 1 (nearest_double (real d / 6))\<rparr>
                      | None \<Rightarrow> sequence r ! i = None)))"
    if i: "i < length (nodeOrder r)" for i
  proof -
    have ev: "phraseEvent layout (computeDegreeMap edges) (nodeOrder r ! i) = Inr (sequence r ! i)"
      using r(3) i by blast
    show ?thesis
    proof (cases "nodeOrder r ! i")
      case None
      then have "sequence r ! i = None" using ev by (simp add: phraseEvent_None)
      then show ?thesis using None by (simp add: degree_get_def)
    next
      case (Some s)
      let ?d = "degree_get (computeDegreeMap edges) (Some s)"
      have e: "sequence r ! i
            = (if ?d \<le> 2 then None
               else (case getNoteFromNode layout (fst (parseNodeId s)) (snd (parseNodeId s)) of
                       Some n \<Rightarrow> Some \<lparr>ev_type = ''note'', ev_note = n,
                                         ev_velocity = min 1 (nearest_double (real ?d / 6))\<rparr>
                     | None \<Rightarrow> None))"
        using ev Some by (simp add: phraseEvent_Some)
      have lo: "?d \<le> 2 \<longrightarrow> sequence r ! i = None" using e by simp
      have c: "case getNoteFromNode layout (fst (parseNodeId s)) (snd (parseNodeId s)) of
                 Some p \<Rightarrow> sequence r ! i
                           = Some \<lparr>ev_type = ''note'', ev_note = p,
                                   ev_velocity = min 1 (nearest_double (real ?d / 6))\<rparr>
               | None \<Rightarrow> sequence r ! i = None" if "3 \<le> ?d"
        using e that by (simp split: option.splits)
      have t: "sequence r ! i
                 = Some \<lparr>ev_type = ''note'', ev_note = layout ! nat row ! nat col,
                         ev_velocity = min 1 (nearest_double (real ?d / 6))\<rparr>"
        if "3 \<le> ?d" and p: "parseNodeId s = (Finite row, Finite col)
                         \<and> 0 \<le> row \<and> row < int (length layout)
                         \<and> 0 \<le> col \<and> col < int (length (layout ! nat row))" for row col
      proof -
        have "getNoteFromNode layout (fst (parseNodeId s)) (snd (parseNodeId s))
              = Some (layout ! nat row ! nat col)"
          using p getNoteFromNode_in_table[of row layout col] by simp
        then show ?thesis using c[OF that(1)] by simp
      qed
      show ?thesis unfolding Let_def Some using lo c t by blast
    qed
  qed
  have "\<exists>r. generatePhraseSequence layout edges = Inr r
     \<and> length (sequence r) = length (nodeOrder r)
     \<and> (\<forall>i < length (nodeOrder r).
          let d = degree_get (computeDegreeMap edges) (nodeOrder r ! i) in
            (d \<le> 2 \<longrightarrow> sequence r ! i = None)
          \<and> (3 \<le> d \<longrightarrow>
               (\<exists>s. nodeOrder r ! i = Some s
                  \<and> (\<forall>row col. parseNodeId s = (Finite row, Finite col)
                         \<and> 0 \<le> row \<and> row < int (length layout)
                         \<and> 0 \<le> col \<and> col < int (length (layout ! nat row))
                       \<longrightarrow> sequence r ! i
                           = Some \<lparr>ev_type = ''note'', ev_note = layout ! nat row ! nat col,
                                   ev_velocity = min 1 (nearest_double (real d / 6))\<rparr>)
                  \<and> (case getNoteFromNode layout (fst (parseNodeId s)) (snd (parseNodeId s)) of
                        Some p \<Rightarrow> sequence r ! i
                                  = Some \<lparr>ev_type = ''note'', ev_note = p,
                                          ev_velocity = min 1 (nearest_double (real d / 6))\<rparr>
                      | None \<Rightarrow> sequence r ! i = None))))"
    using r(1,2) pos by blast
  moreover have "\<forall>row col. 0 \<le> row \<and> row < int (length layout) \<and> 0 \<le> col
        \<and> col < int (length (layout ! nat row))
        \<longrightarrow> getNoteFromNode layout (Finite row) (Finite col) = Some (layout ! nat row ! nat col)"
    using getNoteFromNode_in_table by blast
  moreover have "\<forall>row col. (getNoteFromNode layout row col = None)
        = (\<forall>r c. row = Finite r \<and> col = Finite c
              \<longrightarrow> r < 0 \<or> int (length layout) \<le> r \<or> c < 0 \<or> int (length (layout ! nat r)) \<le> c)"
    using getNoteFromNode_None_iff by blast
  moreover have "\<forall>d\<ge>6. min 1 (nearest_double (real d / 6)) = 1"
    using velocity_saturates by blast
  ultimately show ?thesis using velocity_values by (intro conjI) assumption+
qed

text \<open>
  A star of four edges around \<^verbatim>\<open>r1c0\<close>, whose row and column differ, and a pitch table of
  two rows.
\<close>

definition star4 :: "GridEdge list" where
  "star4 =
     [\<lparr>edge_key = ''r0c0-r1c0'', edge_from = mkNode ''r1c0'', edge_to = mkNode ''r0c0''\<rparr>,
      \<lparr>edge_key = ''r0c1-r1c0'', edge_from = mkNode ''r1c0'', edge_to = mkNode ''r0c1''\<rparr>,
      \<lparr>edge_key = ''r1c0-r1c1'', edge_from = mkNode ''r1c0'', edge_to = mkNode ''r1c1''\<rparr>,
      \<lparr>edge_key = ''r1c0-r2c0'', edge_from = mkNode ''r1c0'', edge_to = mkNode ''r2c0''\<rparr>]"

definition layout2 :: "int list list" where
  "layout2 = [[60, 62], [64, 65]]"

lemma buildAdjacency_star4:
  "buildAdjacency star4
   = [(''r1c0'', [''r0c0'', ''r0c1'', ''r1c1'', ''r2c0'']), (''r0c0'', [''r1c0'']),
      (''r0c1'', [''r1c0'']), (''r1c1'', [''r1c0'']), (''r2c0'', [''r1c0''])]"
  by code_simp

lemma longestTrail_star4: "longestTrail (buildAdjacency star4) = [''r0c0'', ''r1c0'', ''r0c1'']"
  unfolding buildAdjacency_star4 by (simp add: dfs_eval)

lemma computeDegreeMap_star4:
  "computeDegreeMap star4
   = [(''r1c0'', 4), (''r0c0'', 1), (''r0c1'', 1), (''r1c1'', 1), (''r2c0'', 1)]"
  by code_simp

lemma nodeOrder_star4_1:
  "pingPongToLength [''r0c0'', ''r1c0'', ''r0c1''] 64 ! 1 = Some ''r1c0''"
proof -
  have "pingPongLoop [''r0c0'', ''r1c0'', ''r0c1''] 64 [] True 0
        = pingPongLoop [''r0c0'', ''r1c0'', ''r0c1''] 64 [Some ''r0c0'', Some ''r1c0''] False 2"
    by (subst pingPongLoop.simps, simp add: js_index_def, subst pingPongLoop.simps,
        simp add: js_index_def)
  then show ?thesis
    by (simp add: pingPongToLength_def pingPongLoop_nth_prefix)
qed

lemma parseNodeId_r1c0: "parseNodeId ''r1c0'' = (Finite 1, Finite 0)"
proof -
  have "regex_match ''r1c0'' = Some (''1'', ''0'')" by code_simp
  moreover have "digits_value ''1'' = 1" "digits_value ''0'' = 0"
    by (simp_all add: digits_value_def digit_value_def)
  ultimately show ?thesis
    using number_of_nat_small[of 1] number_of_nat_small[of 0]
    by (simp add: parseNodeId_def parseInt_def)
qed

theorem generatePhraseSequence_events_witness:
  "\<exists>r. generatePhraseSequence layout2 star4 = Inr r
      \<and> nodeOrder r ! 1 = Some ''r1c0''
      \<and> degree_get (computeDegreeMap star4) (nodeOrder r ! 1) = 4
      \<and> parseNodeId ''r1c0'' = (Finite 1, Finite 0)
      \<and> layout2 ! 1 ! 0 = 64
      \<and> sequence r ! 1
          = Some \<lparr>ev_type = ''note'', ev_note = 64, ev_velocity = 6004799503160661 / 2 ^ 53\<rparr>"
proof -
  note t = generatePhraseSequence_events[of layout2 star4]
  obtain r where r: "generatePhraseSequence layout2 star4 = Inr r"
    and o: "nodeOrder r = pingPongToLength (longestTrail (buildAdjacency star4)) 64"
    using generatePhraseSequence_Inr[of layout2 star4] by blast
  have n: "nodeOrder r ! 1 = Some ''r1c0''"
    by (simp only: o longestTrail_star4 nodeOrder_star4_1)
  have len: "1 < length (nodeOrder r)"
    by (simp add: o longestTrail_star4 pingPongToLength_length)
  have d: "degree_get (computeDegreeMap star4) (Some ''r1c0'') = 4"
    by (simp add: computeDegreeMap_star4 degree_get_def)
  have tab: "(0::int) \<le> 1 \<and> 1 < int (length layout2) \<and> (0::int) \<le> 0
             \<and> 0 < int (length (layout2 ! nat 1))"
    by (simp add: layout2_def)
  have v: "min 1 (nearest_double (real (4::nat) / 6)) = 6004799503160661 / 2 ^ 53"
    using t by blast
  obtain r' where r': "generatePhraseSequence layout2 star4 = Inr r'"
    and ev: "\<forall>i < length (nodeOrder r').
          let d = degree_get (computeDegreeMap star4) (nodeOrder r' ! i) in
            (d \<le> 2 \<longrightarrow> sequence r' ! i = None)
          \<and> (3 \<le> d \<longrightarrow>
               (\<exists>s. nodeOrder r' ! i = Some s
                  \<and> (\<forall>row col. parseNodeId s = (Finite row, Finite col)
                         \<and> 0 \<le> row \<and> row < int (length layout2)
                         \<and> 0 \<le> col \<and> col < int (length (layout2 ! nat row))
                       \<longrightarrow> sequence r' ! i
                           = Some \<lparr>ev_type = ''note'', ev_note = layout2 ! nat row ! nat col,
                                   ev_velocity = min 1 (nearest_double (real d / 6))\<rparr>)
                  \<and> (case getNoteFromNode layout2 (fst (parseNodeId s)) (snd (parseNodeId s)) of
                        Some p \<Rightarrow> sequence r' ! i
                                  = Some \<lparr>ev_type = ''note'', ev_note = p,
                                          ev_velocity = min 1 (nearest_double (real d / 6))\<rparr>
                      | None \<Rightarrow> sequence r' ! i = None)))"
    using t by blast
  have eq: "r' = r" using r r' by simp
  have "\<forall>row col. parseNodeId ''r1c0'' = (Finite row, Finite col)
                         \<and> 0 \<le> row \<and> row < int (length layout2)
                         \<and> 0 \<le> col \<and> col < int (length (layout2 ! nat row))
                       \<longrightarrow> sequence r ! 1
                           = Some \<lparr>ev_type = ''note'', ev_note = layout2 ! nat row ! nat col,
                                   ev_velocity = min 1 (nearest_double (real (4::nat) / 6))\<rparr>"
    using ev[unfolded eq, rule_format, OF len] n d by (simp add: Let_def)
  then have "sequence r ! 1
               = Some \<lparr>ev_type = ''note'', ev_note = layout2 ! nat 1 ! nat 0,
                       ev_velocity = min 1 (nearest_double (real (4::nat) / 6))\<rparr>"
    using parseNodeId_r1c0 tab by blast
  moreover have "layout2 ! 1 ! 0 = 64" by (simp add: layout2_def)
  ultimately have "sequence r ! 1
          = Some \<lparr>ev_type = ''note'', ev_note = 64, ev_velocity = 6004799503160661 / 2 ^ 53\<rparr>"
    unfolding v by simp
  then show ?thesis using r n d parseNodeId_r1c0 by (simp add: layout2_def)
qed

subsection \<open>Sequence lengths\<close>

text \<open>
  C2, as the code has it. For every edge set that is not empty, \<^verbatim>\<open>generateRhythmSequence\<close>
  and \<^verbatim>\<open>generatePhraseSequence\<close> return a sequence and a nodeOrder of exactly 64 elements
  each. For the empty edge set the longest trail is empty, \<^verbatim>\<open>pingPongToLength\<close> returns
  the empty list at its guard, and both generators return an empty sequence and an empty
  nodeOrder.
\<close>

theorem generators_length_64:
  "(edges \<noteq> [] \<longrightarrow>
      length (sequence (generateRhythmSequence edges)) = 64
      \<and> length (nodeOrder (generateRhythmSequence edges)) = 64
      \<and> (\<exists>r. generatePhraseSequence layout edges = Inr r
             \<and> length (sequence r) = 64 \<and> length (nodeOrder r) = 64))
   \<and> generateRhythmSequence [] = \<lparr>sequence = [], nodeOrder = []\<rparr>
   \<and> generatePhraseSequence layout [] = Inr \<lparr>sequence = [], nodeOrder = []\<rparr>"
proof (intro conjI impI)
  assume ne: "edges \<noteq> []"
  then have len: "length (pingPongToLength (longestTrail (buildAdjacency edges)) 64) = 64"
    using longestTrail_nonempty[OF ne] by (simp add: pingPongToLength_length)
  show "length (sequence (generateRhythmSequence edges)) = 64"
    "length (nodeOrder (generateRhythmSequence edges)) = 64"
    using len by (simp_all add: generateRhythmSequence_fields)
  show "\<exists>r. generatePhraseSequence layout edges = Inr r
             \<and> length (sequence r) = 64 \<and> length (nodeOrder r) = 64"
    using generatePhraseSequence_Inr[of layout edges] len by auto
next
  show "generateRhythmSequence [] = \<lparr>sequence = [], nodeOrder = []\<rparr>"
    by (simp add: generateRhythmSequence_def longestTrail_empty pingPongToLength_def)
next
  show "generatePhraseSequence layout [] = Inr \<lparr>sequence = [], nodeOrder = []\<rparr>"
    by (simp add: generatePhraseSequence_def longestTrail_empty pingPongToLength_def)
qed

theorem generators_length_64_witness:
  "star3 \<noteq> []
   \<and> length (sequence (generateRhythmSequence star3)) = 64
   \<and> length (nodeOrder (generateRhythmSequence star3)) = 64
   \<and> (\<exists>r. generatePhraseSequence layout2 star3 = Inr r
          \<and> length (sequence r) = 64 \<and> length (nodeOrder r) = 64)"
proof -
  have ne: "star3 \<noteq> []" by (simp add: star3_def)
  then show ?thesis using generators_length_64[of star3 layout2] by blast
qed

text \<open>On the empty edge set the rhythm generator returns lists of length 0, not 64.\<close>

theorem generators_empty_edge_set:
  "length (nodeOrder (generateRhythmSequence [])) = 0
   \<and> length (sequence (generateRhythmSequence [])) = 0
   \<and> length (nodeOrder (generateRhythmSequence [])) \<noteq> 64"
  by (simp add: generateRhythmSequence_def longestTrail_empty pingPongToLength_def)

section \<open>Node ids\<close>

text \<open>
  A template literal renders a number with \<^verbatim>\<open>Number::toString\<close>: below \<open>10 ^ 21\<close> in plain
  decimal, from \<open>10 ^ 21\<close> on in exponent notation (first digit, a point and the other
  digits if there are any, \<^verbatim>\<open>e+\<close>, the exponent), with as many significant digits as it
  takes to read the same number back. Up to \<open>2 ^ 53\<close>, and for every number of at most 15
  significant digits, these are the digits of the number itself, which is what
  \<open>number_text\<close> prints. (For other numbers above \<open>2 ^ 53\<close> they can be fewer, and
  ECMAScript leaves the last digit to the implementation; nothing below is stated about
  those.)
\<close>

definition digit_char :: "nat \<Rightarrow> char" where
  "digit_char d = ''0123456789'' ! d"

fun decimal_of_nat :: "nat \<Rightarrow> string" where
  "decimal_of_nat n =
     (if n < 10 then [digit_char n] else decimal_of_nat (n div 10) @ [digit_char (n mod 10)])"

declare decimal_of_nat.simps [simp del]

fun strip_zeros :: "nat \<Rightarrow> nat" where
  "strip_zeros n = (if n = 0 \<or> n mod 10 \<noteq> 0 then n else strip_zeros (n div 10))"

declare strip_zeros.simps [simp del]

definition exponent_text :: "nat \<Rightarrow> string" where
  "exponent_text n =
     (let digits = decimal_of_nat (strip_zeros n);
          e = length (decimal_of_nat n) - 1
      in (if length digits = 1 then digits else hd digits # CHR ''.'' # tl digits)
         @ ''e+'' @ decimal_of_nat e)"

definition number_text :: "nat \<Rightarrow> string" where
  "number_text n = (if n < 10 ^ 21 then decimal_of_nat n else exponent_text n)"

definition integer_text :: "js_integer \<Rightarrow> string" where
  "integer_text a =
     (case a of
        Infinity \<Rightarrow> ''Infinity''
      | Finite i \<Rightarrow> if 0 \<le> i then number_text (nat i) else CHR ''-'' # number_text (nat (- i)))"

text \<open>
  \<^verbatim>\<open>`r${rowIndex}c${colIndex}`\<close>. An index is a number: of a natural that no number holds,
  the nearest number is what the literal prints.
\<close>

definition nodeId :: "nat \<Rightarrow> nat \<Rightarrow> string" where
  "nodeId rowIndex colIndex =
     ''r'' @ integer_text (number_of_nat rowIndex) @ ''c'' @ integer_text (number_of_nat colIndex)"

text \<open>The spec's words for an id that the pattern matches somewhere.\<close>

definition has_rc_substring :: "string \<Rightarrow> bool" where
  "has_rc_substring s =
     (\<exists>pre d1 d2 post. s = pre @ [CHR ''r''] @ d1 @ [CHR ''c''] @ d2 @ post
        \<and> d1 \<noteq> [] \<and> d2 \<noteq> [] \<and> list_all is_digit d1 \<and> list_all is_digit d2)"

lemma lt_10_cases:
  "d < 10 \<Longrightarrow> d = 0 \<or> d = 1 \<or> d = 2 \<or> d = 3 \<or> d = 4 \<or> d = 5 \<or> d = 6 \<or> d = 7 \<or> d = 8 \<or> d = (9::nat)"
  by arith

lemma digit_char_is_digit: "d < 10 \<Longrightarrow> is_digit (digit_char d)"
  using lt_10_cases[of d] by (auto simp: is_digit_def digit_char_def)

lemma digit_value_digit_char: "d < 10 \<Longrightarrow> digit_value (digit_char d) = d"
  using lt_10_cases[of d] by (auto simp: digit_value_def digit_char_def)

lemma decimal_of_nat_nonempty: "decimal_of_nat n \<noteq> []"
  by (subst decimal_of_nat.simps) simp

lemma decimal_of_nat_digits: "list_all is_digit (decimal_of_nat n)"
proof (induction n rule: decimal_of_nat.induct)
  case (1 n)
  show ?case
  proof (cases "n < 10")
    case True
    then show ?thesis by (subst decimal_of_nat.simps) (simp add: digit_char_is_digit)
  next
    case False
    then show ?thesis using 1 by (subst decimal_of_nat.simps) (simp add: digit_char_is_digit)
  qed
qed

lemma digits_value_snoc: "digits_value (ds @ [ch]) = 10 * digits_value ds + digit_value ch"
  by (simp add: digits_value_def)

lemma digits_value_decimal_of_nat: "digits_value (decimal_of_nat n) = n"
proof (induction n rule: decimal_of_nat.induct)
  case (1 n)
  show ?case
  proof (cases "n < 10")
    case True
    then show ?thesis
      by (subst decimal_of_nat.simps) (simp add: digits_value_def digit_value_digit_char)
  next
    case False
    then show ?thesis using 1
      by (subst decimal_of_nat.simps) (simp add: digits_value_snoc digit_value_digit_char)
  qed
qed

lemma parseInt_decimal_of_nat: "n < 2 ^ 53 \<Longrightarrow> parseInt (decimal_of_nat n) = Finite (int n)"
  by (simp add: parseInt_def digits_value_decimal_of_nat number_of_nat_small)

lemma integer_text_small:
  assumes "n < 2 ^ 53"
  shows "integer_text (number_of_nat n) = decimal_of_nat n"
proof -
  have "n < 10 ^ 21" using assms by simp
  then show ?thesis by (simp add: number_of_nat_small[OF assms] integer_text_def number_text_def)
qed

lemma nodeId_small:
  "row < 2 ^ 53 \<Longrightarrow> col < 2 ^ 53
   \<Longrightarrow> nodeId row col = ''r'' @ decimal_of_nat row @ ''c'' @ decimal_of_nat col"
  by (simp add: nodeId_def integer_text_small)

lemma takeWhile_digits_stop:
  "list_all is_digit ds \<Longrightarrow> \<not> is_digit ch \<Longrightarrow> takeWhile is_digit (ds @ ch # rest) = ds"
  by (induction ds) simp_all

lemma dropWhile_digits_stop:
  "list_all is_digit ds \<Longrightarrow> \<not> is_digit ch \<Longrightarrow> dropWhile is_digit (ds @ ch # rest) = ch # rest"
  by (induction ds) simp_all

lemma takeWhile_digits_all: "list_all is_digit ds \<Longrightarrow> takeWhile is_digit ds = ds"
  by (induction ds) simp_all

lemma c_not_digit: "\<not> is_digit CHR ''c''"
  by (simp add: is_digit_def)

lemma match_here_nodeId:
  "row < 2 ^ 53 \<Longrightarrow> col < 2 ^ 53
   \<Longrightarrow> match_here (nodeId row col) = Some (decimal_of_nat row, decimal_of_nat col)"
  by (simp add: nodeId_small takeWhile_digits_stop dropWhile_digits_stop takeWhile_digits_all
        decimal_of_nat_digits decimal_of_nat_nonempty c_not_digit)

lemma regex_match_nodeId:
  assumes "row < 2 ^ 53" "col < 2 ^ 53"
  shows "regex_match (nodeId row col) = Some (decimal_of_nat row, decimal_of_nat col)"
proof -
  obtain rest where "nodeId row col = CHR ''r'' # rest" by (simp add: nodeId_def)
  then show ?thesis using match_here_nodeId[OF assms] by simp
qed

lemma parseNodeId_nodeId:
  "row < 2 ^ 53 \<Longrightarrow> col < 2 ^ 53
   \<Longrightarrow> parseNodeId (nodeId row col) = (Finite (int row), Finite (int col))"
  by (simp add: parseNodeId_def regex_match_nodeId parseInt_decimal_of_nat)

lemma match_here_SomeD:
  assumes "match_here s = Some (d1, d2)"
  shows "\<exists>post. s = [CHR ''r''] @ d1 @ [CHR ''c''] @ d2 @ post
          \<and> d1 \<noteq> [] \<and> d2 \<noteq> [] \<and> list_all is_digit d1 \<and> list_all is_digit d2"
proof (cases s)
  case Nil
  with assms show ?thesis by simp
next
  case (Cons ch rest)
  from assms Cons have ch: "ch = CHR ''r''" and d1: "d1 = takeWhile is_digit rest" "d1 \<noteq> []"
    by (auto simp: Let_def split: if_splits list.splits)
  from assms Cons ch obtain rest2 where r1: "dropWhile is_digit rest = CHR ''c'' # rest2"
    and d2: "d2 = takeWhile is_digit rest2" "d2 \<noteq> []"
    by (auto simp: Let_def split: if_splits list.splits)
  have "rest = d1 @ CHR ''c'' # rest2"
    using takeWhile_dropWhile_id[of is_digit rest] d1(1) r1 by simp
  moreover have "rest2 = d2 @ dropWhile is_digit rest2"
    using takeWhile_dropWhile_id[of is_digit rest2] d2(1) by simp
  moreover have "list_all is_digit d1" "list_all is_digit d2"
    unfolding d1(1) d2(1) list_all_iff by (auto dest: set_takeWhileD)
  ultimately show ?thesis using Cons ch d1(2) d2(2)
    by (intro exI[of _ "dropWhile is_digit rest2"]) simp
qed

lemma match_here_substring:
  assumes "d1 \<noteq> []" "d2 \<noteq> []" "list_all is_digit d1" "list_all is_digit d2"
  shows "match_here ([CHR ''r''] @ d1 @ [CHR ''c''] @ d2 @ post) \<noteq> None"
proof -
  have t1: "takeWhile is_digit (d1 @ CHR ''c'' # d2 @ post) = d1"
    and t2: "dropWhile is_digit (d1 @ CHR ''c'' # d2 @ post) = CHR ''c'' # d2 @ post"
    using assms(3) c_not_digit by (simp_all add: takeWhile_digits_stop dropWhile_digits_stop)
  obtain x xs where d2: "d2 = x # xs" using assms(2) by (cases d2) auto
  then have "is_digit x" using assms(4) by simp
  then have "takeWhile is_digit (d2 @ post) \<noteq> []" using d2 by simp
  then show ?thesis using t1 t2 assms(1) by (simp add: Let_def)
qed

lemma regex_match_Some_substring: "regex_match s = Some m \<Longrightarrow> has_rc_substring s"
proof (induction s)
  case Nil
  then show ?case by simp
next
  case (Cons ch rest)
  show ?case
  proof (cases "match_here (ch # rest)")
    case None
    then have "has_rc_substring rest" using Cons by simp
    then obtain pre d1 d2 post where "rest = pre @ [CHR ''r''] @ d1 @ [CHR ''c''] @ d2 @ post"
      "d1 \<noteq> []" "d2 \<noteq> []" "list_all is_digit d1" "list_all is_digit d2"
      unfolding has_rc_substring_def by blast
    then show ?thesis unfolding has_rc_substring_def
      by (intro exI[of _ "ch # pre"] exI[of _ d1] exI[of _ d2] exI[of _ post]) simp
  next
    case (Some m')
    obtain d1 d2 where "m' = (d1, d2)" by (cases m')
    with Some match_here_SomeD[of "ch # rest" d1 d2] show ?thesis
      unfolding has_rc_substring_def by (metis append_Nil)
  qed
qed

lemma regex_match_substring:
  assumes "d1 \<noteq> []" "d2 \<noteq> []" "list_all is_digit d1" "list_all is_digit d2"
  shows "regex_match (pre @ [CHR ''r''] @ d1 @ [CHR ''c''] @ d2 @ post) \<noteq> None"
proof (induction pre)
  case Nil
  have "match_here ([CHR ''r''] @ d1 @ [CHR ''c''] @ d2 @ post) \<noteq> None"
    using assms by (rule match_here_substring)
  then show ?case by (auto split: option.splits)
next
  case (Cons ch pre)
  then show ?case by (auto split: option.splits)
qed

lemma regex_match_None_iff: "(regex_match s = None) = (\<not> has_rc_substring s)"
proof
  assume n: "regex_match s = None"
  show "\<not> has_rc_substring s"
  proof
    assume "has_rc_substring s"
    then obtain pre d1 d2 post where "s = pre @ [CHR ''r''] @ d1 @ [CHR ''c''] @ d2 @ post"
      "d1 \<noteq> []" "d2 \<noteq> []" "list_all is_digit d1" "list_all is_digit d2"
      unfolding has_rc_substring_def by blast
    then show False using regex_match_substring[of d1 d2 pre post] n by simp
  qed
next
  assume "\<not> has_rc_substring s"
  then show "regex_match s = None"
    using regex_match_Some_substring[of s] by (cases "regex_match s") auto
qed


section \<open>Grid geometry (components/HexagonalTriangleGrid.tsx)\<close>

text \<open>
  Coordinates, lengths and directions are JavaScript numbers. They are reals here, and every
  operation on them is the exact one: the statements below are about the values these
  operations denote, not about their rounding in double precision.
\<close>

definition ROW_COUNTS :: "nat list" where
  "ROW_COUNTS = [4, 5, 6, 7, 6, 5, 4]"

definition SIDE_LENGTH :: real where
  "SIDE_LENGTH = 48"

definition HORIZONTAL_SPACING :: real where
  "HORIZONTAL_SPACING = SIDE_LENGTH"

definition VERTICAL_SPACING :: real where
  "VERTICAL_SPACING = SIDE_LENGTH * sqrt 3 * 0.5"

definition MAX_COUNT :: nat where
  "MAX_COUNT = Max (set ROW_COUNTS)"

definition MARGIN :: real where
  "MARGIN = SIDE_LENGTH"

record Grid =
  grid_nodesByRow :: "GridNode list list"
  grid_edges :: "GridEdge list"

text \<open>\<^verbatim>\<open>a.id < b.id\<close> compares strings by code unit, which on these ids is the byte order.\<close>

definition createEdgeKey :: "GridNode \<Rightarrow> GridNode \<Rightarrow> string" where
  "createEdgeKey a b =
     (if node_id a < node_id b then node_id a @ ''-'' @ node_id b
      else node_id b @ ''-'' @ node_id a)"

text \<open>
  The state of \<^verbatim>\<open>createGrid\<close>: the list \<^verbatim>\<open>edges\<close> and the set \<^verbatim>\<open>edgeKeys\<close>, changed by
  \<^verbatim>\<open>addEdge\<close>.
\<close>

type_synonym edge_acc = "GridEdge list \<times> string list"

definition addEdge :: "edge_acc \<Rightarrow> GridNode \<Rightarrow> GridNode \<Rightarrow> edge_acc" where
  "addEdge acc a b =
     (let key = createEdgeKey a b
      in if key \<in> set (snd acc) then acc
         else (fst acc @ [\<lparr>edge_key = key, edge_from = a, edge_to = b\<rparr>], set_add (snd acc) key))"

text \<open>
  \<^verbatim>\<open>addEdge(rowA[i], rowB[j])\<close>: an index outside a row reads \<^verbatim>\<open>undefined\<close>, and \<^verbatim>\<open>addEdge\<close>
  raises a TypeError when it reads the \<^verbatim>\<open>id\<close> of \<^verbatim>\<open>undefined\<close>.
\<close>

definition addEdgeAt :: "edge_acc \<Rightarrow> GridNode option \<Rightarrow> GridNode option \<Rightarrow> js_error + edge_acc" where
  "addEdgeAt acc a b =
     (case a of None \<Rightarrow> Inl TypeError
      | Some a' \<Rightarrow> (case b of None \<Rightarrow> Inl TypeError | Some b' \<Rightarrow> Inr (addEdge acc a' b')))"

fun fold_raising :: "('a \<Rightarrow> 's \<Rightarrow> js_error + 's) \<Rightarrow> 'a list \<Rightarrow> 's \<Rightarrow> js_error + 's" where
  "fold_raising f [] s = Inr s"
| "fold_raising f (x # xs) s =
     (case f x s of Inl e \<Rightarrow> Inl e | Inr s' \<Rightarrow> fold_raising f xs s')"

definition rowNodes :: "nat \<Rightarrow> nat \<Rightarrow> GridNode list" where
  "rowNodes count rowIndex =
     (let offset = ((real MAX_COUNT - real count) * HORIZONTAL_SPACING) / 2
      in map (\<lambda>colIndex.
            \<lparr>node_id = nodeId rowIndex colIndex,
             node_x = MARGIN + offset + real colIndex * HORIZONTAL_SPACING,
             node_y = MARGIN + real rowIndex * VERTICAL_SPACING,
             node_row = int rowIndex,
             node_col = int colIndex\<rparr>) [0..<count])"

text \<open>The body of \<^verbatim>\<open>ROW_COUNTS.forEach\<close>: the nodes of a row and its horizontal edges.\<close>

definition row_step :: "GridNode list list \<times> edge_acc \<Rightarrow> nat \<times> nat \<Rightarrow> GridNode list list \<times> edge_acc" where
  "row_step st rc =
     (let rowIndex = fst rc; count = snd rc;
          rn = rowNodes count rowIndex;
          acc = fold (\<lambda>idx acc. case js_index rn (int idx + 1) of
                                    None \<Rightarrow> acc
                                  | Some next \<Rightarrow> addEdge acc (rn ! idx) next)
                  [0..<length rn] (snd st)
      in (fst st @ [rn], acc))"

text \<open>The body of the loop over consecutive rows, with its three adjacency rules.\<close>

definition between_rows :: "GridNode list \<Rightarrow> GridNode list \<Rightarrow> edge_acc \<Rightarrow> js_error + edge_acc" where
  "between_rows upperRow lowerRow acc =
     (if length lowerRow = length upperRow + 1 then
        fold_raising (\<lambda>col acc.
            case addEdgeAt acc (js_index upperRow (int col)) (js_index lowerRow (int col)) of
              Inl e \<Rightarrow> Inl e
            | Inr acc1 \<Rightarrow> addEdgeAt acc1 (js_index upperRow (int col)) (js_index lowerRow (int col + 1)))
          [0..<length upperRow] acc
      else if length lowerRow + 1 = length upperRow then
        fold_raising (\<lambda>col acc.
            case addEdgeAt acc (js_index upperRow (int col)) (js_index lowerRow (int col)) of
              Inl e \<Rightarrow> Inl e
            | Inr acc1 \<Rightarrow> addEdgeAt acc1 (js_index upperRow (int col + 1)) (js_index lowerRow (int col)))
          [0..<length lowerRow] acc
      else
        fold_raising (\<lambda>col acc.
            case addEdgeAt acc (js_index upperRow (int col)) (js_index lowerRow (int col)) of
              Inl e \<Rightarrow> Inl e
            | Inr acc1 \<Rightarrow>
                if int col < int (length upperRow) - 1
                then addEdgeAt acc1 (js_index upperRow (int col + 1)) (js_index lowerRow (int col))
                else Inr acc1)
          [0..<length upperRow] acc)"

definition createGrid :: "js_error + Grid" where
  "createGrid =
     (let st = foldl row_step ([], ([], [])) (zip [0..<length ROW_COUNTS] ROW_COUNTS);
          rows = fst st
      in case fold_raising (\<lambda>row acc. between_rows (rows ! row) (rows ! (row + 1)) acc)
                [0..<length rows - 1] (snd st) of
           Inl e \<Rightarrow> Inl e
         | Inr acc \<Rightarrow> Inr \<lparr>grid_nodesByRow = rows, grid_edges = fst acc\<rparr>)"


subsection \<open>Module-level tables\<close>

text \<open>
  The tables are computed once from the grid that \<^verbatim>\<open>createGrid()\<close> returned. Here each is a
  function of the grid value \<open>g\<close>, so that a statement about every grid covers the
  constructed one.
\<close>

definition allNodes :: "Grid \<Rightarrow> GridNode list" where
  "allNodes g = concat (grid_nodesByRow g)"

definition nodeMap :: "Grid \<Rightarrow> (string \<times> GridNode) list" where
  "nodeMap g = foldl (\<lambda>m n. map_set m (node_id n) n) [] (allNodes g)"

definition baseEdgeKeys :: "Grid \<Rightarrow> string set" where
  "baseEdgeKeys g = set (map edge_key (grid_edges g))"

text \<open>
  \<^verbatim>\<open>x.toFixed(6)\<close> prints a sign for a negative number and then the integer nearest to
  \<^verbatim>\<open>|x| * 10^6\<close> (the larger one at a tie) with the point six digits from the right. Two such
  strings are equal exactly when sign and integer are, so the pair stands for the string.
\<close>

definition toFixed6 :: "real \<Rightarrow> bool \<times> int" where
  "toFixed6 v = (v < 0, round (\<bar>v\<bar> * 1000000))"

type_synonym coordinate_key = "(bool \<times> int) \<times> (bool \<times> int)"

definition coordinateKey :: "real \<Rightarrow> real \<Rightarrow> coordinate_key" where
  "coordinateKey vx vy = (toFixed6 vx, toFixed6 vy)"

definition nodeCoordinateMap :: "Grid \<Rightarrow> (coordinate_key \<times> GridNode) list" where
  "nodeCoordinateMap g =
     foldl (\<lambda>m n. map_set m (coordinateKey (node_x n) (node_y n)) n) [] (allNodes g)"

record DirectionInfo =
  dir_dx :: real
  dir_dy :: real
  dir_length :: real

text \<open>\<^verbatim>\<open>Math.hypot\<close> and \<^verbatim>\<open>Math.round\<close> (nearest integer, a tie goes up) over the reals.\<close>

definition hypot :: "real \<Rightarrow> real \<Rightarrow> real" where
  "hypot a b = sqrt (a * a + b * b)"

text \<open>
  The direction key is \<^verbatim>\<open>`${ux},${uy}`\<close>; the two numbers stand for the string, which they
  determine and which determines them.
\<close>

type_synonym direction_key = "real \<times> real"

definition createDirectionKey :: "real \<Rightarrow> real \<Rightarrow> direction_key option" where
  "createDirectionKey dx dy =
     (let len = hypot dx dy
      in if len = 0 then None
         else Some (real_of_int (round ((dx / len) * 1000000)) / 1000000,
                    real_of_int (round ((dy / len) * 1000000)) / 1000000))"

text \<open>\<^verbatim>\<open>if (key && !map.has(key)) map.set(key, info)\<close>\<close>

definition dir_put ::
  "(direction_key \<times> DirectionInfo) list \<Rightarrow> direction_key option \<Rightarrow> DirectionInfo
   \<Rightarrow> (direction_key \<times> DirectionInfo) list" where
  "dir_put m key info =
     (case key of None \<Rightarrow> m
      | Some k \<Rightarrow> if \<not> map_has m k then map_set m k info else m)"

definition directionInfoMap_step ::
  "(direction_key \<times> DirectionInfo) list \<Rightarrow> GridEdge \<Rightarrow> (direction_key \<times> DirectionInfo) list" where
  "directionInfoMap_step m edge =
     (let dx = node_x (edge_to edge) - node_x (edge_from edge);
          dy = node_y (edge_to edge) - node_y (edge_from edge);
          len = hypot dx dy;
          forwardKey = createDirectionKey dx dy;
          backwardKey = createDirectionKey (- dx) (- dy)
      in dir_put (dir_put m forwardKey \<lparr>dir_dx = dx, dir_dy = dy, dir_length = len\<rparr>)
           backwardKey \<lparr>dir_dx = - dx, dir_dy = - dy, dir_length = len\<rparr>)"

definition directionInfoMap :: "Grid \<Rightarrow> (direction_key \<times> DirectionInfo) list" where
  "directionInfoMap g = foldl directionInfoMap_step [] (grid_edges g)"

definition directionKeyFromNodes :: "GridNode \<Rightarrow> GridNode \<Rightarrow> direction_key option" where
  "directionKeyFromNodes f t =
     (let dx = node_x t - node_x f;
          dy = node_y t - node_y f;
          len = hypot dx dy
      in if len = 0 then None
         else Some (real_of_int (round ((dx / len) * 1000000)) / 1000000,
                    real_of_int (round ((dy / len) * 1000000)) / 1000000))"

subsection \<open>Gesture decomposition\<close>

text \<open>
  The \<^verbatim>\<open>for\<close> loop of \<^verbatim>\<open>getEdgeSegments\<close>: \<open>n\<close> steps are left, \<open>current\<close> is the node
  reached and \<open>segments\<close> the edges pushed so far. \<open>None\<close> is the \<^verbatim>\<open>return null\<close> inside
  the loop.
\<close>

fun walkSegments ::
  "Grid \<Rightarrow> DirectionInfo \<Rightarrow> nat \<Rightarrow> GridNode \<Rightarrow> GridEdge list \<Rightarrow> (GridEdge list \<times> GridNode) option" where
  "walkSegments g direction 0 current segments = Some (segments, current)"
| "walkSegments g direction (Suc n) current segments =
     (let nextX = node_x current + dir_dx direction;
          nextY = node_y current + dir_dy direction
      in case map_of (nodeCoordinateMap g) (coordinateKey nextX nextY) of
           None \<Rightarrow> None
         | Some nextNode \<Rightarrow>
             (let segmentKey = createEdgeKey current nextNode
              in if segmentKey \<notin> baseEdgeKeys g then None
                 else walkSegments g direction n nextNode
                        (segments @ [\<lparr>edge_key = segmentKey, edge_from = current, edge_to = nextNode\<rparr>])))"

definition getEdgeSegments :: "Grid \<Rightarrow> GridNode \<Rightarrow> GridNode \<Rightarrow> GridEdge list option" where
  "getEdgeSegments g f t =
     (case directionKeyFromNodes f t of
        None \<Rightarrow> None
      | Some directionKey \<Rightarrow>
          (case map_of (directionInfoMap g) directionKey of
             None \<Rightarrow> None
           | Some direction \<Rightarrow>
               (let totalLength = hypot (node_x t - node_x f) (node_y t - node_y f);
                    stepsFloat = totalLength / dir_length direction;
                    steps = round stepsFloat
                in if steps \<le> 0 \<or> \<bar>real_of_int steps - stepsFloat\<bar> > 1 / 1000000 then None
                   else (case walkSegments g direction (nat steps) f [] of
                           None \<Rightarrow> None
                         | Some (segments, current) \<Rightarrow>
                             if node_id current \<noteq> node_id t then None else Some segments))))"

definition canCreateEdge :: "Grid \<Rightarrow> GridNode \<Rightarrow> GridNode \<Rightarrow> bool" where
  "canCreateEdge g f t = (getEdgeSegments g f t \<noteq> None)"

subsection \<open>The component's handlers\<close>

text \<open>
  A handler reads the props \<^verbatim>\<open>edges\<close> and the state \<^verbatim>\<open>selectedNodeId\<close>; it returns the new
  \<^verbatim>\<open>selectedNodeId\<close> and the argument of its call of \<^verbatim>\<open>onEdgesChange\<close>, \<open>None\<close> when it
  makes no call.
\<close>

text \<open>The \<^verbatim>\<open>forEach\<close> that pushes the segments whose key is new.\<close>

fun pushSegments :: "string list \<Rightarrow> GridEdge list \<Rightarrow> GridEdge list \<Rightarrow> GridEdge list" where
  "pushSegments existingKeys nextEdges [] = nextEdges"
| "pushSegments existingKeys nextEdges (segment # rest) =
     (if edge_key segment \<notin> set existingKeys
      then pushSegments (set_add existingKeys (edge_key segment)) (nextEdges @ [segment]) rest
      else pushSegments existingKeys nextEdges rest)"

definition handleNodeClick ::
  "Grid \<Rightarrow> GridEdge list \<Rightarrow> string option \<Rightarrow> GridNode \<Rightarrow> string option \<times> GridEdge list option" where
  "handleNodeClick g es selectedNodeId node =
     (case selectedNodeId of
        None \<Rightarrow> (Some (node_id node), None)
      | Some sel \<Rightarrow>
          if sel = node_id node then (None, None)
          else (case map_of (nodeMap g) sel of
                  None \<Rightarrow> (Some (node_id node), None)
                | Some fromNode \<Rightarrow>
                    if \<not> canCreateEdge g fromNode node then (Some (node_id node), None)
                    else (case getEdgeSegments g fromNode node of
                            None \<Rightarrow> (selectedNodeId, None)
                          | Some segments \<Rightarrow>
                              (None, Some (pushSegments (map edge_key es) es segments)))))"

definition handleEdgeContextMenu :: "GridEdge list \<Rightarrow> GridEdge \<Rightarrow> GridEdge list option" where
  "handleEdgeContextMenu es targetEdge = Some (filter (\<lambda>edge. edge_key edge \<noteq> edge_key targetEdge) es)"

definition handleClearEdges :: "GridEdge list \<Rightarrow> GridEdge list option" where
  "handleClearEdges es = (if length es = 0 then None else Some [])"


subsection \<open>The constructed grid\<close>

lemma fst_foldl_row_step:
  "fst (foldl row_step st rcs) = fst st @ map (\<lambda>rc. rowNodes (snd rc) (fst rc)) rcs"
  by (induction rcs arbitrary: st) (simp_all add: row_step_def Let_def)

lemma length_rowNodes: "length (rowNodes count rowIndex) = count"
  by (simp add: rowNodes_def Let_def)

lemma fold_raising_total:
  assumes "\<And>x s. x \<in> set xs \<Longrightarrow> \<exists>s'. f x s = Inr s'"
  shows "\<exists>s'. fold_raising f xs s = Inr s'"
  using assms
proof (induction xs arbitrary: s)
  case Nil
  then show ?case by simp
next
  case (Cons x xs)
  from Cons.prems obtain s1 where "f x s = Inr s1" by (meson list.set_intros(1))
  moreover have "\<exists>s'. fold_raising f xs s1 = Inr s'" using Cons by simp
  ultimately show ?case by simp
qed

lemma addEdgeAt_in_range:
  "0 \<le> i \<Longrightarrow> i < int (length upperRow) \<Longrightarrow> 0 \<le> j \<Longrightarrow> j < int (length lowerRow)
   \<Longrightarrow> \<exists>acc'. addEdgeAt acc (js_index upperRow i) (js_index lowerRow j) = Inr acc'"
  by (simp add: addEdgeAt_def js_index_def)

lemma between_rows_total:
  assumes "length lowerRow = length upperRow + 1 \<or> length lowerRow + 1 = length upperRow"
  shows "\<exists>acc'. between_rows upperRow lowerRow acc = Inr acc'"
proof (cases "length lowerRow = length upperRow + 1")
  case True
  have "\<exists>s'. fold_raising (\<lambda>col acc.
            case addEdgeAt acc (js_index upperRow (int col)) (js_index lowerRow (int col)) of
              Inl e \<Rightarrow> Inl e
            | Inr acc1 \<Rightarrow> addEdgeAt acc1 (js_index upperRow (int col)) (js_index lowerRow (int col + 1)))
          [0..<length upperRow] acc = Inr s'"
  proof (rule fold_raising_total)
    fix col s assume col: "col \<in> set [0..<length upperRow]"
    from col True obtain a1 where a1: "addEdgeAt s (js_index upperRow (int col)) (js_index lowerRow (int col)) = Inr a1"
      using addEdgeAt_in_range[of "int col" upperRow "int col" lowerRow s] by auto
    from col True obtain a2 where "addEdgeAt a1 (js_index upperRow (int col)) (js_index lowerRow (int col + 1)) = Inr a2"
      using addEdgeAt_in_range[of "int col" upperRow "int col + 1" lowerRow a1] by auto
    with a1 show "\<exists>s'. (case addEdgeAt s (js_index upperRow (int col)) (js_index lowerRow (int col)) of
              Inl e \<Rightarrow> Inl e
            | Inr acc1 \<Rightarrow> addEdgeAt acc1 (js_index upperRow (int col)) (js_index lowerRow (int col + 1))) = Inr s'"
      by simp
  qed
  then show ?thesis using True by (simp add: between_rows_def)
next
  case False
  with assms have eq: "length lowerRow + 1 = length upperRow" by simp
  have "\<exists>s'. fold_raising (\<lambda>col acc.
            case addEdgeAt acc (js_index upperRow (int col)) (js_index lowerRow (int col)) of
              Inl e \<Rightarrow> Inl e
            | Inr acc1 \<Rightarrow> addEdgeAt acc1 (js_index upperRow (int col + 1)) (js_index lowerRow (int col)))
          [0..<length lowerRow] acc = Inr s'"
  proof (rule fold_raising_total)
    fix col s assume col: "col \<in> set [0..<length lowerRow]"
    from col eq obtain a1 where a1: "addEdgeAt s (js_index upperRow (int col)) (js_index lowerRow (int col)) = Inr a1"
      using addEdgeAt_in_range[of "int col" upperRow "int col" lowerRow s] by auto
    from col eq obtain a2 where "addEdgeAt a1 (js_index upperRow (int col + 1)) (js_index lowerRow (int col)) = Inr a2"
      using addEdgeAt_in_range[of "int col + 1" upperRow "int col" lowerRow a1] by auto
    with a1 show "\<exists>s'. (case addEdgeAt s (js_index upperRow (int col)) (js_index lowerRow (int col)) of
              Inl e \<Rightarrow> Inl e
            | Inr acc1 \<Rightarrow> addEdgeAt acc1 (js_index upperRow (int col + 1)) (js_index lowerRow (int col))) = Inr s'"
      by simp
  qed
  then show ?thesis using False eq by (simp add: between_rows_def)
qed

definition gridRows :: "GridNode list list" where
  "gridRows = map (\<lambda>rc. rowNodes (snd rc) (fst rc)) (zip [0..<length ROW_COUNTS] ROW_COUNTS)"

lemma length_gridRows: "length gridRows = 7"
  by (simp add: gridRows_def ROW_COUNTS_def)

lemma length_gridRows_nth:
  assumes "row < 7"
  shows "length (gridRows ! row) = ROW_COUNTS ! row"
proof -
  have "row < length ROW_COUNTS" using assms by (simp add: ROW_COUNTS_def)
  then show ?thesis by (simp add: gridRows_def length_rowNodes)
qed

lemma lt_6_cases: "row < 6 \<Longrightarrow> row = 0 \<or> row = 1 \<or> row = 2 \<or> row = 3 \<or> row = 4 \<or> row = (5::nat)"
  by arith

lemma gridRows_adjacent:
  assumes "row < 6"
  shows "length (gridRows ! (row + 1)) = length (gridRows ! row) + 1
         \<or> length (gridRows ! (row + 1)) + 1 = length (gridRows ! row)"
proof -
  have "ROW_COUNTS ! (row + 1) = ROW_COUNTS ! row + 1 \<or> ROW_COUNTS ! (row + 1) + 1 = ROW_COUNTS ! row"
    using lt_6_cases[OF assms] by (auto simp: ROW_COUNTS_def)
  then show ?thesis using assms by (simp add: length_gridRows_nth)
qed

lemma createGrid_constructs: "\<exists>g. createGrid = Inr g \<and> grid_nodesByRow g = gridRows"
proof -
  let ?st = "foldl row_step ([], ([], [])) (zip [0..<length ROW_COUNTS] ROW_COUNTS)"
  have rows: "fst ?st = gridRows" by (simp add: fst_foldl_row_step gridRows_def)
  have "\<exists>acc. fold_raising (\<lambda>row acc. between_rows (gridRows ! row) (gridRows ! (row + 1)) acc)
                [0..<length gridRows - 1] (snd ?st) = Inr acc"
  proof (rule fold_raising_total)
    fix row s assume "row \<in> set [0..<length gridRows - 1]"
    then have "row < 6" by (simp add: length_gridRows)
    then show "\<exists>s'. between_rows (gridRows ! row) (gridRows ! (row + 1)) s = Inr s'"
      by (intro between_rows_total gridRows_adjacent)
  qed
  then obtain acc where "fold_raising (\<lambda>row acc. between_rows (gridRows ! row) (gridRows ! (row + 1)) acc)
                [0..<length gridRows - 1] (snd ?st) = Inr acc" by blast
  then have "createGrid = Inr \<lparr>grid_nodesByRow = gridRows, grid_edges = fst acc\<rparr>"
    unfolding createGrid_def Let_def rows by simp
  moreover have "grid_nodesByRow \<lparr>grid_nodesByRow = gridRows, grid_edges = fst acc\<rparr> = gridRows"
    by simp
  ultimately show ?thesis by blast
qed

lemma gridRows_node:
  assumes "n \<in> set (concat gridRows)"
  shows "\<exists>rowIndex colIndex. node_id n = nodeId rowIndex colIndex
           \<and> node_row n = int rowIndex \<and> node_col n = int colIndex
           \<and> rowIndex < 7 \<and> colIndex < 7"
proof -
  from assms obtain rowIndex count where rc: "(rowIndex, count) \<in> set (zip [0..<length ROW_COUNTS] ROW_COUNTS)"
    and n: "n \<in> set (rowNodes count rowIndex)"
    by (auto simp: gridRows_def)
  have "rowIndex \<in> set [0..<length ROW_COUNTS]" using rc by (rule set_zip_leftD)
  then have "rowIndex < length ROW_COUNTS" by simp
  then have r7: "rowIndex < 7" by (simp add: ROW_COUNTS_def)
  have "count \<in> set ROW_COUNTS" using rc by (rule set_zip_rightD)
  then have c7: "count \<le> 7" by (auto simp: ROW_COUNTS_def)
  from n obtain colIndex where "colIndex < count" "node_id n = nodeId rowIndex colIndex"
    "node_row n = int rowIndex" "node_col n = int colIndex"
    by (auto simp: rowNodes_def Let_def)
  then show ?thesis using r7 c7 by (intro exI[of _ rowIndex] exI[of _ colIndex]) simp
qed

lemma parseNodeId_grid_index:
  assumes "rowIndex < 7" "colIndex < 7"
  shows "parseNodeId (nodeId rowIndex colIndex) = (Finite (int rowIndex), Finite (int colIndex))"
proof -
  have "rowIndex < 2 ^ 53" "colIndex < 2 ^ 53" using assms by simp_all
  then show ?thesis by (rule parseNodeId_nodeId)
qed

text \<open>
  C10, as the code has it. For every natural \<open>row\<close> and \<open>col\<close> below \<open>2 ^ 53\<close>,
  \<^verbatim>\<open>parseNodeId\<close> applied to \<^verbatim>\<open>"r" + row + "c" + col\<close> returns that row and column: below
  \<open>2 ^ 53\<close> every natural is a number, printed in plain decimal and read back exactly.
  \<^verbatim>\<open>createGrid\<close> returns a grid, and for every node of it \<^verbatim>\<open>parseNodeId(node.id)\<close> is the
  node's row and column. The pattern fails to match, which is the one way into the (0, 0)
  fallback, exactly on the ids with no substring \<^verbatim>\<open>r\<close>, digits, \<^verbatim>\<open>c\<close>, digits.
\<close>

theorem parseNodeId_roundtrip:
  "(row < 2 ^ 53 \<and> col < 2 ^ 53
      \<longrightarrow> nodeId row col = ''r'' @ decimal_of_nat row @ ''c'' @ decimal_of_nat col
          \<and> parseNodeId (nodeId row col) = (Finite (int row), Finite (int col)))
   \<and> (\<exists>g. createGrid = Inr g
          \<and> (\<forall>n \<in> set (allNodes g).
                 parseNodeId (node_id n) = (Finite (node_row n), Finite (node_col n))))
   \<and> (regex_match s = None) = (\<not> has_rc_substring s)
   \<and> (regex_match s = None \<longrightarrow> parseNodeId s = (Finite 0, Finite 0))"
proof (intro conjI)
  show "row < 2 ^ 53 \<and> col < 2 ^ 53
      \<longrightarrow> nodeId row col = ''r'' @ decimal_of_nat row @ ''c'' @ decimal_of_nat col
          \<and> parseNodeId (nodeId row col) = (Finite (int row), Finite (int col))"
    using nodeId_small parseNodeId_nodeId by blast
next
  obtain g where g: "createGrid = Inr g" "grid_nodesByRow g = gridRows"
    using createGrid_constructs by blast
  have "parseNodeId (node_id n) = (Finite (node_row n), Finite (node_col n))"
    if "n \<in> set (allNodes g)" for n
  proof -
    from that obtain rowIndex colIndex where "node_id n = nodeId rowIndex colIndex"
      "node_row n = int rowIndex" "node_col n = int colIndex" "rowIndex < 7" "colIndex < 7"
      using gridRows_node[of n] g(2) by (auto simp: allNodes_def)
    then show ?thesis using parseNodeId_grid_index[of rowIndex colIndex] by simp
  qed
  then show "\<exists>g. createGrid = Inr g
          \<and> (\<forall>n \<in> set (allNodes g).
                 parseNodeId (node_id n) = (Finite (node_row n), Finite (node_col n)))"
    using g(1) by blast
next
  show "(regex_match s = None) = (\<not> has_rc_substring s)" by (rule regex_match_None_iff)
next
  show "regex_match s = None \<longrightarrow> parseNodeId s = (Finite 0, Finite 0)"
    by (simp add: parseNodeId_def)
qed

lemma nodeId_3_6: "nodeId 3 6 = ''r3c6''"
  by (simp add: nodeId_small decimal_of_nat.simps digit_char_def)

lemma r3c6_in_gridRows:
  "\<lparr>node_id = ''r3c6'', node_x = MARGIN + 6 * HORIZONTAL_SPACING,
     node_y = MARGIN + 3 * VERTICAL_SPACING, node_row = 3, node_col = 6\<rparr> \<in> set (concat gridRows)"
proof -
  have "MAX_COUNT = 7" by (simp add: MAX_COUNT_def ROW_COUNTS_def)
  then have "rowNodes 7 3 ! 6 = \<lparr>node_id = ''r3c6'', node_x = MARGIN + 6 * HORIZONTAL_SPACING,
     node_y = MARGIN + 3 * VERTICAL_SPACING, node_row = 3, node_col = 6\<rparr>"
    by (simp add: rowNodes_def Let_def nodeId_3_6)
  moreover have "rowNodes 7 3 ! 6 \<in> set (rowNodes 7 3)"
    by (rule nth_mem) (simp add: length_rowNodes)
  moreover have "rowNodes 7 3 \<in> set gridRows"
    by (simp add: gridRows_def ROW_COUNTS_def numeral_3_eq_3)
  ultimately show ?thesis by auto
qed

theorem parseNodeId_roundtrip_witness:
  "(3::nat) < 2 ^ 53 \<and> (6::nat) < 2 ^ 53
   \<and> nodeId 3 6 = ''r3c6''
   \<and> parseNodeId ''r3c6'' = (Finite 3, Finite 6)
   \<and> (\<exists>g. createGrid = Inr g
      \<and> \<lparr>node_id = ''r3c6'', node_x = MARGIN + 6 * HORIZONTAL_SPACING,
          node_y = MARGIN + 3 * VERTICAL_SPACING, node_row = 3, node_col = 6\<rparr> \<in> set (allNodes g))
   \<and> regex_match ''pin'' = None \<and> parseNodeId ''pin'' = (Finite 0, Finite 0)"
proof -
  have h: "(3::nat) < 2 ^ 53 \<and> (6::nat) < 2 ^ 53" by simp
  have "parseNodeId (nodeId 3 6) = (Finite (int 3), Finite (int 6))"
    using parseNodeId_roundtrip[of 3 6 "''pin''"] h by blast
  then have a: "parseNodeId ''r3c6'' = (Finite 3, Finite 6)"
    unfolding nodeId_3_6 by simp
  have b: "regex_match ''pin'' = None" by simp
  have c: "parseNodeId ''pin'' = (Finite 0, Finite 0)"
    using parseNodeId_roundtrip[of 3 6 "''pin''"] b by blast
  obtain g where g: "createGrid = Inr g" "grid_nodesByRow g = gridRows"
    using createGrid_constructs by blast
  have "\<lparr>node_id = ''r3c6'', node_x = MARGIN + 6 * HORIZONTAL_SPACING,
          node_y = MARGIN + 3 * VERTICAL_SPACING, node_row = 3, node_col = 6\<rparr> \<in> set (allNodes g)"
    using r3c6_in_gridRows g(2) by (simp add: allNodes_def)
  with a b c g(1) nodeId_3_6 h show ?thesis by blast
qed

text \<open>
  Without the bound the round trip fails. The number \<open>10 ^ 21\<close> prints as \<^verbatim>\<open>1e+21\<close>, so the
  id of row \<open>10 ^ 21\<close> and column 0 is \<^verbatim>\<open>r1e+21c0\<close>: after \<^verbatim>\<open>r1\<close> comes \<^verbatim>\<open>e\<close> and not \<^verbatim>\<open>c\<close>,
  the pattern matches nowhere, and \<^verbatim>\<open>parseNodeId\<close> returns the fallback (0, 0). And no
  number holds the natural \<open>2 ^ 53 + 1\<close>: the id of that row is the id of row \<open>2 ^ 53\<close>,
  which is the row that \<^verbatim>\<open>parseNodeId\<close> returns.
\<close>

lemma strip_zeros_1e21: "strip_zeros 1000000000000000000000 = 1"
  by (simp add: strip_zeros.simps)

lemma decimal_of_nat_1e21: "decimal_of_nat 1000000000000000000000 = ''1000000000000000000000''"
  by (simp add: decimal_of_nat.simps digit_char_def)

lemma exponent_text_1e21: "exponent_text 1000000000000000000000 = ''1e+21''"
  by (simp add: exponent_text_def strip_zeros_1e21 decimal_of_nat_1e21 Let_def
        decimal_of_nat.simps digit_char_def)

lemma nodeId_1e21: "nodeId (10 ^ 21) 0 = ''r1e+21c0''"
proof -
  have "number_of_nat (10 ^ 21) = Finite 1000000000000000000000"
    using number_of_nat_1e21 by simp
  then have "integer_text (number_of_nat (10 ^ 21)) = ''1e+21''"
    by (simp add: integer_text_def number_text_def exponent_text_1e21)
  moreover have "integer_text (number_of_nat 0) = ''0''"
    using integer_text_small[of 0] by (simp add: decimal_of_nat.simps digit_char_def)
  ultimately show ?thesis by (simp only: nodeId_def) simp
qed

lemma nodeId_2_53_plus_1: "nodeId 9007199254740993 0 = ''r9007199254740992c0''"
proof -
  have "integer_text (number_of_nat 9007199254740993) = ''9007199254740992''"
    by (simp add: number_of_nat_2_53 integer_text_def number_text_def decimal_of_nat.simps
          digit_char_def)
  moreover have "integer_text (number_of_nat 0) = ''0''"
    using integer_text_small[of 0] by (simp add: decimal_of_nat.simps digit_char_def)
  ultimately show ?thesis by (simp only: nodeId_def) simp
qed

lemma parseNodeId_2_53:
  "parseNodeId ''r9007199254740992c0'' = (Finite 9007199254740992, Finite 0)"
proof -
  have "regex_match ''r9007199254740992c0'' = Some (''9007199254740992'', ''0'')"
    by (simp add: is_digit_def)
  moreover have "digits_value ''9007199254740992'' = 9007199254740992" "digits_value ''0'' = 0"
    by (simp_all add: digits_value_def digit_value_def)
  ultimately show ?thesis
    using number_of_nat_small[of 0]
    by (simp add: parseNodeId_def parseInt_def number_of_nat_2_53)
qed

theorem parseNodeId_roundtrip_fails:
  "nodeId (10 ^ 21) 0 = ''r1e+21c0''
   \<and> regex_match (nodeId (10 ^ 21) 0) = None
   \<and> parseNodeId (nodeId (10 ^ 21) 0) = (Finite 0, Finite 0)
   \<and> parseNodeId (nodeId (10 ^ 21) 0) \<noteq> (Finite (10 ^ 21), Finite 0)
   \<and> nodeId 9007199254740993 0 = ''r9007199254740992c0''
   \<and> parseNodeId (nodeId 9007199254740993 0) = (Finite 9007199254740992, Finite 0)
   \<and> parseNodeId (nodeId 9007199254740993 0) \<noteq> (Finite 9007199254740993, Finite 0)"
proof -
  have m: "regex_match ''r1e+21c0'' = None" by (simp add: is_digit_def)
  have p: "parseNodeId ''r1e+21c0'' = (Finite 0, Finite 0)"
    unfolding parseNodeId_def m by simp
  show ?thesis unfolding nodeId_1e21 nodeId_2_53_plus_1 parseNodeId_2_53 m p by simp
qed

subsection \<open>The edit operations as a state machine\<close>

text \<open>
  The state is the edge list of the track, which the parent replaces by the argument of
  every \<^verbatim>\<open>onEdgesChange\<close> call, and the component's \<^verbatim>\<open>selectedNodeId\<close>. A click reaches
  \<^verbatim>\<open>handleNodeClick\<close> from a rendered circle, that is a node of \<^verbatim>\<open>allNodes\<close>; a context menu
  reaches \<^verbatim>\<open>handleEdgeContextMenu\<close> from a rendered line, that is an edge of the list.
\<close>

datatype grid_event = NodeClick GridNode | EdgeContextMenu GridEdge | ClearEdges

type_synonym grid_state = "GridEdge list \<times> string option"

fun grid_step :: "Grid \<Rightarrow> grid_state \<Rightarrow> grid_event \<Rightarrow> grid_state" where
  "grid_step g (es, sel) (NodeClick node) =
     (case handleNodeClick g es sel node of
        (sel', None) \<Rightarrow> (es, sel')
      | (sel', Some nextEdges) \<Rightarrow> (nextEdges, sel'))"
| "grid_step g (es, sel) (EdgeContextMenu targetEdge) =
     (case handleEdgeContextMenu es targetEdge of
        None \<Rightarrow> (es, sel)
      | Some nextEdges \<Rightarrow> (nextEdges, sel))"
| "grid_step g (es, sel) ClearEdges =
     (case handleClearEdges es of
        None \<Rightarrow> (es, sel)
      | Some nextEdges \<Rightarrow> (nextEdges, None))"

fun enabled :: "Grid \<Rightarrow> grid_state \<Rightarrow> grid_event \<Rightarrow> bool" where
  "enabled g (es, sel) (NodeClick node) = (node \<in> set (allNodes g))"
| "enabled g (es, sel) (EdgeContextMenu targetEdge) = (targetEdge \<in> set es)"
| "enabled g (es, sel) ClearEdges = True"

inductive reachable :: "Grid \<Rightarrow> grid_state \<Rightarrow> bool" for g :: Grid where
  initial: "reachable g ([], None)"
| step: "reachable g st \<Longrightarrow> enabled g st ev \<Longrightarrow> reachable g (grid_step g st ev)"

text \<open>
  The invariant: the key of an edge is the canonical key of its two nodes and is a base-edge
  key, and no key occurs twice in the list.
\<close>

definition edge_valid :: "Grid \<Rightarrow> GridEdge \<Rightarrow> bool" where
  "edge_valid g e =
     (edge_key e = createEdgeKey (edge_from e) (edge_to e) \<and> edge_key e \<in> baseEdgeKeys g)"

definition edges_valid :: "Grid \<Rightarrow> GridEdge list \<Rightarrow> bool" where
  "edges_valid g es = (list_all (edge_valid g) es \<and> distinct (map edge_key es))"

lemma walkSegments_keys:
  "walkSegments g d n cur segs = Some (segs', cur')
   \<Longrightarrow> list_all (edge_valid g) segs
   \<Longrightarrow> list_all (edge_valid g) segs'"
proof (induction n arbitrary: cur segs)
  case 0
  then show ?case by simp
next
  case (Suc n)
  from Suc.prems(1) obtain nextNode where
    nx: "map_of (nodeCoordinateMap g)
           (coordinateKey (node_x cur + dir_dx d) (node_y cur + dir_dy d)) = Some nextNode"
    and key: "createEdgeKey cur nextNode \<in> baseEdgeKeys g"
    and rec: "walkSegments g d n nextNode
               (segs @ [\<lparr>edge_key = createEdgeKey cur nextNode, edge_from = cur, edge_to = nextNode\<rparr>])
              = Some (segs', cur')"
    by (auto simp: Let_def split: option.splits if_splits)
  show ?case
    using Suc.IH[OF rec] Suc.prems(2) key by (simp add: edge_valid_def)
qed

lemma getEdgeSegments_keys:
  assumes "getEdgeSegments g f t = Some segs"
  shows "list_all (edge_valid g) segs"
proof -
  from assms obtain d n cur where "walkSegments g d n f [] = Some (segs, cur)"
    by (auto simp: getEdgeSegments_def Let_def split: option.splits if_splits)
  then show ?thesis using walkSegments_keys[of g d n f "[]" segs cur] by simp
qed

lemma pushSegments_valid:
  "set existingKeys = set (map edge_key nextEdges)
   \<Longrightarrow> edges_valid g nextEdges
   \<Longrightarrow> list_all (edge_valid g) segs
   \<Longrightarrow> edges_valid g (pushSegments existingKeys nextEdges segs)"
proof (induction segs arbitrary: existingKeys nextEdges)
  case Nil
  then show ?case by simp
next
  case (Cons segment rest)
  show ?case
  proof (cases "edge_key segment \<in> set existingKeys")
    case True
    then show ?thesis using Cons by simp
  next
    case False
    have "set (set_add existingKeys (edge_key segment)) = set (map edge_key (nextEdges @ [segment]))"
      using Cons.prems(1) by (auto simp: set_add_def)
    moreover have "edges_valid g (nextEdges @ [segment])"
      using Cons.prems False by (auto simp: edges_valid_def)
    ultimately show ?thesis using Cons.IH[of "set_add existingKeys (edge_key segment)" "nextEdges @ [segment]"]
      Cons.prems(3) False by simp
  qed
qed

lemma pushSegments_keys:
  "set existingKeys = set (map edge_key nextEdges)
   \<Longrightarrow> set (map edge_key (pushSegments existingKeys nextEdges segs))
       = set (map edge_key nextEdges) \<union> set (map edge_key segs)"
proof (induction segs arbitrary: existingKeys nextEdges)
  case Nil
  then show ?case by simp
next
  case (Cons segment rest)
  show ?case
  proof (cases "edge_key segment \<in> set existingKeys")
    case True
    then show ?thesis using Cons by auto
  next
    case False
    have "set (set_add existingKeys (edge_key segment)) = set (map edge_key (nextEdges @ [segment]))"
      using Cons.prems(1) by (auto simp: set_add_def)
    then show ?thesis using Cons.IH[of "set_add existingKeys (edge_key segment)" "nextEdges @ [segment]"]
      False by auto
  qed
qed

lemma pushSegments_prefix: "\<exists>added. pushSegments existingKeys nextEdges segs = nextEdges @ added"
proof (induction segs arbitrary: existingKeys nextEdges)
  case Nil
  then show ?case by simp
next
  case (Cons segment rest)
  show ?case
  proof (cases "edge_key segment \<in> set existingKeys")
    case True
    then show ?thesis using Cons by simp
  next
    case False
    from Cons[of "set_add existingKeys (edge_key segment)" "nextEdges @ [segment]"]
    obtain added where "pushSegments (set_add existingKeys (edge_key segment)) (nextEdges @ [segment]) rest
      = (nextEdges @ [segment]) @ added" by blast
    then show ?thesis using False by simp
  qed
qed

lemma handleNodeClick_call:
  assumes "handleNodeClick g es sel node = (sel', Some nextEdges)"
  shows "\<exists>s fromNode segs. sel = Some s \<and> map_of (nodeMap g) s = Some fromNode
           \<and> getEdgeSegments g fromNode node = Some segs
           \<and> nextEdges = pushSegments (map edge_key es) es segs"
  using assms
  by (auto simp: handleNodeClick_def canCreateEdge_def split: option.splits if_splits)

lemma handleNodeClick_valid:
  assumes "handleNodeClick g es sel node = (sel', Some nextEdges)" "edges_valid g es"
  shows "edges_valid g nextEdges"
proof -
  from handleNodeClick_call[OF assms(1)] obtain fromNode segs where
    "getEdgeSegments g fromNode node = Some segs" "nextEdges = pushSegments (map edge_key es) es segs"
    by blast
  then show ?thesis
    using pushSegments_valid[of "map edge_key es" es g segs] assms(2) getEdgeSegments_keys by simp
qed

lemma filter_valid: "edges_valid g es \<Longrightarrow> edges_valid g (filter P es)"
  by (auto simp: edges_valid_def list_all_iff distinct_map_filter)

lemma grid_step_valid:
  assumes "edges_valid g (fst st)"
  shows "edges_valid g (fst (grid_step g st ev))"
proof (cases st)
  case (Pair es sel)
  show ?thesis
  proof (cases ev)
    case (NodeClick node)
    obtain sel' call where h: "handleNodeClick g es sel node = (sel', call)"
      by (cases "handleNodeClick g es sel node")
    show ?thesis
    proof (cases call)
      case None
      then show ?thesis using assms Pair NodeClick h by simp
    next
      case (Some nextEdges)
      then show ?thesis
        using assms Pair NodeClick h handleNodeClick_valid[of g es sel node sel' nextEdges] by simp
    qed
  next
    case (EdgeContextMenu targetEdge)
    then show ?thesis using assms Pair by (simp add: handleEdgeContextMenu_def filter_valid)
  next
    case ClearEdges
    then show ?thesis using assms Pair by (simp add: handleClearEdges_def edges_valid_def)
  qed
qed

lemma reachable_valid: "reachable g st \<Longrightarrow> edges_valid g (fst st)"
proof (induction rule: reachable.induct)
  case initial
  then show ?case by (simp add: edges_valid_def)
next
  case (step st ev)
  then show ?case by (simp add: grid_step_valid)
qed

lemma handleNodeClick_failure:
  assumes "map_of (nodeMap g) s = Some fromNode" "getEdgeSegments g fromNode node = None"
  shows "snd (handleNodeClick g es (Some s) node) = None"
  using assms by (simp add: handleNodeClick_def canCreateEdge_def)


subsection \<open>What a decomposition is\<close>

text \<open>
  The walk in the words of the specification: the node the walk stands on after \<open>i\<close> steps (each step
  looks up the node at the current coordinates plus the step vector), the unit edge between
  two nodes, and a walk of \<open>k\<close> steps all of whose nodes exist and all of whose segments
  are base edges.
\<close>

fun nodeAt :: "Grid \<Rightarrow> DirectionInfo \<Rightarrow> GridNode \<Rightarrow> nat \<Rightarrow> GridNode option" where
  "nodeAt g d f 0 = Some f"
| "nodeAt g d f (Suc i) =
     (case nodeAt g d f i of
        None \<Rightarrow> None
      | Some cur \<Rightarrow> map_of (nodeCoordinateMap g)
                     (coordinateKey (node_x cur + dir_dx d) (node_y cur + dir_dy d)))"

definition unitEdge :: "GridNode \<Rightarrow> GridNode \<Rightarrow> GridEdge" where
  "unitEdge a b = \<lparr>edge_key = createEdgeKey a b, edge_from = a, edge_to = b\<rparr>"

definition validWalk :: "Grid \<Rightarrow> DirectionInfo \<Rightarrow> GridNode \<Rightarrow> nat \<Rightarrow> bool" where
  "validWalk g d f k =
     (\<forall>i<k. \<exists>a b. nodeAt g d f i = Some a \<and> nodeAt g d f (Suc i) = Some b
                \<and> createEdgeKey a b \<in> baseEdgeKeys g)"

definition walkEdges :: "Grid \<Rightarrow> DirectionInfo \<Rightarrow> GridNode \<Rightarrow> nat \<Rightarrow> GridEdge list" where
  "walkEdges g d f k =
     map (\<lambda>i. unitEdge (the (nodeAt g d f i)) (the (nodeAt g d f (Suc i)))) [0..<k]"

text \<open>
  The total distance over the base step length, the number of steps the code takes, and
  the test that the distance is a positive whole number of steps within the tolerance.
\<close>

definition stepRatio :: "GridNode \<Rightarrow> GridNode \<Rightarrow> DirectionInfo \<Rightarrow> real" where
  "stepRatio f t d = hypot (node_x t - node_x f) (node_y t - node_y f) / dir_length d"

definition stepCount :: "GridNode \<Rightarrow> GridNode \<Rightarrow> DirectionInfo \<Rightarrow> nat" where
  "stepCount f t d = nat (round (stepRatio f t d))"

definition within_tolerance :: "GridNode \<Rightarrow> GridNode \<Rightarrow> DirectionInfo \<Rightarrow> bool" where
  "within_tolerance f t d =
     (\<exists>n::int. 1 \<le> n \<and> \<bar>real_of_int n - stepRatio f t d\<bar> \<le> 1 / 1000000)"

lemma nodeAt_Suc_shift:
  "nodeAt g d f (Suc i) =
     (case map_of (nodeCoordinateMap g)
             (coordinateKey (node_x f + dir_dx d) (node_y f + dir_dy d)) of
        None \<Rightarrow> None
      | Some nx \<Rightarrow> nodeAt g d nx i)"
proof (induction i)
  case 0
  then show ?case by (simp split: option.splits)
next
  case (Suc i)
  have "nodeAt g d f (Suc (Suc i)) =
     (case nodeAt g d f (Suc i) of
        None \<Rightarrow> None
      | Some cur \<Rightarrow> map_of (nodeCoordinateMap g)
                     (coordinateKey (node_x cur + dir_dx d) (node_y cur + dir_dy d)))"
    by simp
  also have "\<dots> = (case map_of (nodeCoordinateMap g)
             (coordinateKey (node_x f + dir_dx d) (node_y f + dir_dy d)) of
        None \<Rightarrow> None
      | Some nx \<Rightarrow> nodeAt g d nx (Suc i))"
    unfolding Suc.IH by (simp split: option.splits)
  finally show ?case .
qed

lemma all_less_Suc_shift: "(\<forall>i<Suc n. P i) = (P 0 \<and> (\<forall>i<n. P (Suc i)))"
proof
  assume a: "\<forall>i<Suc n. P i"
  then show "P 0 \<and> (\<forall>i<n. P (Suc i))" by auto
next
  assume a: "P 0 \<and> (\<forall>i<n. P (Suc i))"
  show "\<forall>i<Suc n. P i"
  proof (intro allI impI)
    fix i assume "i < Suc n"
    then show "P i" using a by (cases i) auto
  qed
qed

lemma validWalk_0: "validWalk g d f 0"
  by (simp add: validWalk_def)

lemma validWalk_Suc:
  "validWalk g d f (Suc n) =
     (case map_of (nodeCoordinateMap g)
             (coordinateKey (node_x f + dir_dx d) (node_y f + dir_dy d)) of
        None \<Rightarrow> False
      | Some nx \<Rightarrow> createEdgeKey f nx \<in> baseEdgeKeys g \<and> validWalk g d nx n)"
proof (cases "map_of (nodeCoordinateMap g)
             (coordinateKey (node_x f + dir_dx d) (node_y f + dir_dy d))")
  case None
  then have "nodeAt g d f (Suc 0) = None" by simp
  then have "\<not> validWalk g d f (Suc n)" unfolding validWalk_def by force
  then show ?thesis using None by simp
next
  case (Some nx)
  have shift: "nodeAt g d f (Suc i) = nodeAt g d nx i" for i
    using nodeAt_Suc_shift[of g d f i] Some by simp
  have "validWalk g d f (Suc n) =
      ((\<exists>a b. nodeAt g d f 0 = Some a \<and> nodeAt g d f (Suc 0) = Some b
                \<and> createEdgeKey a b \<in> baseEdgeKeys g)
       \<and> (\<forall>i<n. \<exists>a b. nodeAt g d f (Suc i) = Some a \<and> nodeAt g d f (Suc (Suc i)) = Some b
                \<and> createEdgeKey a b \<in> baseEdgeKeys g))"
    unfolding validWalk_def by (rule all_less_Suc_shift)
  also have "\<dots> = (createEdgeKey f nx \<in> baseEdgeKeys g \<and> validWalk g d nx n)"
    unfolding shift validWalk_def using Some by simp
  finally show ?thesis using Some by simp
qed

lemma walkEdges_Suc:
  assumes "map_of (nodeCoordinateMap g)
             (coordinateKey (node_x f + dir_dx d) (node_y f + dir_dy d)) = Some nx"
  shows "walkEdges g d f (Suc n) = unitEdge f nx # walkEdges g d nx n"
proof -
  have shift: "nodeAt g d f (Suc i) = nodeAt g d nx i" for i
    using nodeAt_Suc_shift[of g d f i] assms by simp
  have "[0..<Suc n] = 0 # map Suc [0..<n]"
    by (simp add: upt_conv_Cons map_Suc_upt del: upt_Suc)
  then have "walkEdges g d f (Suc n)
      = unitEdge (the (nodeAt g d f 0)) (the (nodeAt g d f (Suc 0)))
        # map (\<lambda>i. unitEdge (the (nodeAt g d f (Suc i))) (the (nodeAt g d f (Suc (Suc i))))) [0..<n]"
    unfolding walkEdges_def by (simp add: comp_def del: upt_Suc nodeAt.simps)
  then show ?thesis unfolding shift walkEdges_def by simp
qed

lemma walkSegments_char:
  "walkSegments g d n cur segs =
     (if validWalk g d cur n
      then Some (segs @ walkEdges g d cur n, the (nodeAt g d cur n))
      else None)"
proof (induction n arbitrary: cur segs)
  case 0
  then show ?case by (simp add: validWalk_0 walkEdges_def)
next
  case (Suc n)
  show ?case
  proof (cases "map_of (nodeCoordinateMap g)
             (coordinateKey (node_x cur + dir_dx d) (node_y cur + dir_dy d))")
    case None
    then show ?thesis by (simp add: validWalk_Suc)
  next
    case (Some nx)
    have shift: "nodeAt g d cur (Suc n) = nodeAt g d nx n"
      using nodeAt_Suc_shift[of g d cur n] Some by simp
    show ?thesis
    proof (cases "createEdgeKey cur nx \<in> baseEdgeKeys g")
      case False
      then show ?thesis using Some by (simp add: validWalk_Suc)
    next
      case True
      have "walkSegments g d (Suc n) cur segs
            = walkSegments g d n nx (segs @ [unitEdge cur nx])"
        using Some True by (simp add: unitEdge_def)
      also have "\<dots> = (if validWalk g d nx n
            then Some ((segs @ [unitEdge cur nx]) @ walkEdges g d nx n, the (nodeAt g d nx n))
            else None)"
        by (rule Suc.IH)
      also have "\<dots> = (if validWalk g d cur (Suc n)
            then Some (segs @ walkEdges g d cur (Suc n), the (nodeAt g d cur (Suc n)))
            else None)"
        unfolding shift using Some True by (simp add: validWalk_Suc walkEdges_Suc)
      finally show ?thesis .
    qed
  qed
qed

lemma getEdgeSegments_char:
  "getEdgeSegments g f t =
     (case directionKeyFromNodes f t of
        None \<Rightarrow> None
      | Some key \<Rightarrow>
          (case map_of (directionInfoMap g) key of
             None \<Rightarrow> None
           | Some d \<Rightarrow>
               (let ratio = hypot (node_x t - node_x f) (node_y t - node_y f) / dir_length d
                in if round ratio \<le> 0 \<or> \<bar>real_of_int (round ratio) - ratio\<bar> > 1 / 1000000 then None
                   else if validWalk g d f (nat (round ratio))
                           \<and> node_id (the (nodeAt g d f (nat (round ratio)))) = node_id t
                   then Some (walkEdges g d f (nat (round ratio)))
                   else None)))"
  by (simp add: getEdgeSegments_def walkSegments_char Let_def split: option.splits)



lemma round_near:
  assumes "\<bar>real_of_int n - x\<bar> \<le> 1 / 1000000"
  shows "round x = n"
proof (rule round_unique)
  show "x - 1 / 2 < real_of_int n" using assms by linarith
  show "real_of_int n \<le> x + 1 / 2" using assms by linarith
qed

lemma steps_ok_iff:
  "(\<not> (round x \<le> 0 \<or> \<bar>real_of_int (round x) - x\<bar> > 1 / 1000000))
   = (\<exists>n::int. 1 \<le> n \<and> \<bar>real_of_int n - x\<bar> \<le> 1 / 1000000)"
proof
  assume "\<not> (round x \<le> 0 \<or> \<bar>real_of_int (round x) - x\<bar> > 1 / 1000000)"
  then show "\<exists>n::int. 1 \<le> n \<and> \<bar>real_of_int n - x\<bar> \<le> 1 / 1000000"
    by (intro exI[of _ "round x"]) auto
next
  assume "\<exists>n::int. 1 \<le> n \<and> \<bar>real_of_int n - x\<bar> \<le> 1 / 1000000"
  then obtain n :: int where n: "1 \<le> n" "\<bar>real_of_int n - x\<bar> \<le> 1 / 1000000" by blast
  then have "round x = n" using round_near by blast
  then show "\<not> (round x \<le> 0 \<or> \<bar>real_of_int (round x) - x\<bar> > 1 / 1000000)"
    using n by auto
qed


lemma getEdgeSegments_through:
  assumes "directionKeyFromNodes f t = Some key" "map_of (directionInfoMap g) key = Some d"
    and "\<exists>n::int. 1 \<le> n
            \<and> \<bar>real_of_int n - hypot (node_x t - node_x f) (node_y t - node_y f) / dir_length d\<bar>
                \<le> 1 / 1000000"
  shows "getEdgeSegments g f t =
     (if validWalk g d f (nat (round (hypot (node_x t - node_x f) (node_y t - node_y f) / dir_length d)))
         \<and> node_id (the (nodeAt g d f
               (nat (round (hypot (node_x t - node_x f) (node_y t - node_y f) / dir_length d)))))
             = node_id t
      then Some (walkEdges g d f
               (nat (round (hypot (node_x t - node_x f) (node_y t - node_y f) / dir_length d))))
      else None)"
proof -
  let ?ratio = "hypot (node_x t - node_x f) (node_y t - node_y f) / dir_length d"
  have ok: "\<not> (round ?ratio \<le> 0 \<or> \<bar>real_of_int (round ?ratio) - ?ratio\<bar> > 1 / 1000000)"
    using assms(3) by (simp only: steps_ok_iff)
  show ?thesis
    unfolding getEdgeSegments_char using assms(1,2) ok by (simp add: Let_def)
qed









subsection \<open>A small grid for concrete gestures\<close>

text \<open>
  Four pins on one horizontal line, at the coordinates of columns 0, 1, 2 and 4 of row 0;
  the pin of column 3 is missing, and only the first two segments are base edges.
\<close>

definition pin0 :: GridNode where
  "pin0 = \<lparr>node_id = ''r0c0'', node_x = 120, node_y = 48, node_row = 0, node_col = 0\<rparr>"

definition pin1 :: GridNode where
  "pin1 = \<lparr>node_id = ''r0c1'', node_x = 168, node_y = 48, node_row = 0, node_col = 1\<rparr>"

definition pin2 :: GridNode where
  "pin2 = \<lparr>node_id = ''r0c2'', node_x = 216, node_y = 48, node_row = 0, node_col = 2\<rparr>"

definition pin4 :: GridNode where
  "pin4 = \<lparr>node_id = ''r0c4'', node_x = 312, node_y = 48, node_row = 0, node_col = 4\<rparr>"

definition pins :: Grid where
  "pins = \<lparr>grid_nodesByRow = [[pin0, pin1, pin2, pin4]],
           grid_edges = [unitEdge pin0 pin1, unitEdge pin1 pin2]\<rparr>"

definition east :: DirectionInfo where
  "east = \<lparr>dir_dx = 48, dir_dy = 0, dir_length = 48\<rparr>"

lemma hypot_0_right: "hypot a 0 = \<bar>a\<bar>"
  by (simp add: hypot_def)

lemma pin_ids:
  "node_id pin0 = ''r0c0''" "node_id pin1 = ''r0c1''" "node_id pin2 = ''r0c2''"
  "node_id pin4 = ''r0c4''"
  by (simp_all add: pin0_def pin1_def pin2_def pin4_def)

lemma pin_keys:
  "createEdgeKey pin0 pin1 = ''r0c0-r0c1''" "createEdgeKey pin1 pin2 = ''r0c1-r0c2''"
  "createEdgeKey pin2 pin4 = ''r0c2-r0c4''"
  by (simp_all add: createEdgeKey_def pin_ids)

lemma pins_baseEdgeKeys: "baseEdgeKeys pins = {''r0c0-r0c1'', ''r0c1-r0c2''}"
  by (simp add: baseEdgeKeys_def pins_def unitEdge_def pin_keys)

lemma pins_directionInfoMap:
  "directionInfoMap pins
   = [((1, 0), east), ((-1, 0), \<lparr>dir_dx = -48, dir_dy = 0, dir_length = 48\<rparr>)]"
  by (simp add: directionInfoMap_def pins_def unitEdge_def pin0_def pin1_def pin2_def pin4_def directionInfoMap_step_def Let_def
        createDirectionKey_def dir_put_def map_has_def hypot_0_right east_def)

lemma pins_nodeCoordinateMap:
  "nodeCoordinateMap pins
   = [(((False, 120000000), (False, 48000000)), pin0),
      (((False, 168000000), (False, 48000000)), pin1),
      (((False, 216000000), (False, 48000000)), pin2),
      (((False, 312000000), (False, 48000000)), pin4)]"
proof -
  have k: "coordinateKey (node_x pin0) (node_y pin0) = ((False, 120000000), (False, 48000000))"
    "coordinateKey (node_x pin1) (node_y pin1) = ((False, 168000000), (False, 48000000))"
    "coordinateKey (node_x pin2) (node_y pin2) = ((False, 216000000), (False, 48000000))"
    "coordinateKey (node_x pin4) (node_y pin4) = ((False, 312000000), (False, 48000000))"
    by (simp_all add: coordinateKey_def toFixed6_def pin0_def pin1_def pin2_def pin4_def)
  show ?thesis
    by (simp add: nodeCoordinateMap_def allNodes_def pins_def k)
qed

lemma pins_nodeMap:
  "nodeMap pins = [(''r0c0'', pin0), (''r0c1'', pin1), (''r0c2'', pin2), (''r0c4'', pin4)]"
  by (simp add: nodeMap_def allNodes_def pins_def pin_ids)

lemma pins_step:
  "map_of (nodeCoordinateMap pins)
     (coordinateKey (node_x pin0 + dir_dx east) (node_y pin0 + dir_dy east)) = Some pin1"
  "map_of (nodeCoordinateMap pins)
     (coordinateKey (node_x pin1 + dir_dx east) (node_y pin1 + dir_dy east)) = Some pin2"
  "map_of (nodeCoordinateMap pins)
     (coordinateKey (node_x pin2 + dir_dx east) (node_y pin2 + dir_dy east)) = None"
  by (simp_all add: pins_nodeCoordinateMap coordinateKey_def toFixed6_def pin0_def pin1_def pin2_def pin4_def east_def)

lemma pins_nodeAt:
  "nodeAt pins east pin0 (Suc 0) = Some pin1"
  "nodeAt pins east pin0 (Suc (Suc 0)) = Some pin2"
  "nodeAt pins east pin2 (Suc 0) = None"
  by (simp_all add: pins_step)

lemma pins_validWalk: "validWalk pins east pin0 (Suc (Suc 0))"
  by (simp add: validWalk_Suc validWalk_0 pins_step pin_keys pins_baseEdgeKeys)

lemma pins_key_0_2: "directionKeyFromNodes pin0 pin2 = Some (1, 0)"
  by (simp add: directionKeyFromNodes_def pin0_def pin1_def pin2_def pin4_def Let_def hypot_0_right)

lemma pins_key_2_4: "directionKeyFromNodes pin2 pin4 = Some (1, 0)"
  by (simp add: directionKeyFromNodes_def pin0_def pin1_def pin2_def pin4_def Let_def hypot_0_right)

lemma pins_east: "map_of (directionInfoMap pins) (1, 0) = Some east"
  by (simp add: pins_directionInfoMap)

lemma pins_ratio: "stepRatio pin0 pin2 east = 2" "stepRatio pin2 pin4 east = 2"
  by (simp_all add: stepRatio_def pin0_def pin1_def pin2_def pin4_def east_def hypot_0_right)

lemma pins_tolerance: "within_tolerance pin0 pin2 east" "within_tolerance pin2 pin4 east"
  unfolding within_tolerance_def pins_ratio by (rule exI[of _ 2], simp)+

lemma pins_stepCount: "stepCount pin0 pin2 east = Suc (Suc 0)"
  "stepCount pin2 pin4 east = Suc (Suc 0)"
  by (simp_all add: stepCount_def pins_ratio)



lemma pins_gesture_0_2:
  "getEdgeSegments pins pin0 pin2 = Some [unitEdge pin0 pin1, unitEdge pin1 pin2]"
proof -
  have n: "nat (round (hypot (node_x pin2 - node_x pin0) (node_y pin2 - node_y pin0) / dir_length east))
           = Suc (Suc 0)"
    using pins_stepCount(1) by (simp add: stepCount_def stepRatio_def)
  have "walkEdges pins east pin2 0 = []" by (simp add: walkEdges_def)
  then have w: "walkEdges pins east pin0 (Suc (Suc 0)) = [unitEdge pin0 pin1, unitEdge pin1 pin2]"
    by (simp only: walkEdges_Suc[OF pins_step(1)] walkEdges_Suc[OF pins_step(2)])
  have e: "node_id (the (nodeAt pins east pin0 (Suc (Suc 0)))) = node_id pin2"
    by (simp only: pins_nodeAt(2) option.sel)
  show ?thesis
    using getEdgeSegments_through[OF pins_key_0_2 pins_east]
      pins_tolerance(1)[unfolded within_tolerance_def stepRatio_def]
    unfolding n w using pins_validWalk e by simp
qed

lemma pins_gesture_2_4: "getEdgeSegments pins pin2 pin4 = None"
proof -
  have n: "nat (round (hypot (node_x pin4 - node_x pin2) (node_y pin4 - node_y pin2) / dir_length east))
           = Suc (Suc 0)"
    using pins_stepCount(2) by (simp add: stepCount_def stepRatio_def)
  have v: "\<not> validWalk pins east pin2 (Suc (Suc 0))"
    by (simp add: validWalk_Suc pins_step(3))
  show ?thesis
    using getEdgeSegments_through[OF pins_key_2_4 pins_east]
      pins_tolerance(2)[unfolded within_tolerance_def stepRatio_def]
    unfolding n using v by simp
qed

text \<open>
  C6. Every edge list reachable by the component's edit operations holds only edges whose
  key is the canonical key of their two nodes and is in the set of base-edge keys, and no
  key twice. When the decomposition of a gesture
  fails, \<^verbatim>\<open>handleNodeClick\<close> makes no \<^verbatim>\<open>onEdgesChange\<close> call and the edge list stays as it
  was; when it makes a call, the decomposition succeeded, the new list is the old one with
  segments appended, and the key of every segment of the chain is in it.
\<close>

theorem edit_operations_keep_edges_valid:
  "(reachable g st \<longrightarrow>
      (\<forall>e \<in> set (fst st). edge_key e = createEdgeKey (edge_from e) (edge_to e)
                              \<and> edge_key e \<in> baseEdgeKeys g)
      \<and> distinct (map edge_key (fst st)))
   \<and> (map_of (nodeMap g) s = Some fromNode \<longrightarrow> getEdgeSegments g fromNode node = None \<longrightarrow>
        snd (handleNodeClick g es (Some s) node) = None
        \<and> fst (grid_step g (es, Some s) (NodeClick node)) = es)
   \<and> (handleNodeClick g es sel node = (sel', Some nextEdges) \<longrightarrow>
        (\<exists>s' fromNode' segs. sel = Some s' \<and> map_of (nodeMap g) s' = Some fromNode'
           \<and> getEdgeSegments g fromNode' node = Some segs
           \<and> set (map edge_key nextEdges) = set (map edge_key es) \<union> set (map edge_key segs)
           \<and> (\<exists>added. nextEdges = es @ added)))"
proof (intro conjI impI)
  assume "reachable g st"
  then have "edges_valid g (fst st)" by (rule reachable_valid)
  then have a: "list_all (edge_valid g) (fst st)" and d: "distinct (map edge_key (fst st))"
    by (simp_all add: edges_valid_def)
  show "\<forall>e \<in> set (fst st). edge_key e = createEdgeKey (edge_from e) (edge_to e)
                              \<and> edge_key e \<in> baseEdgeKeys g"
    using a unfolding list_all_iff edge_valid_def by blast
  show "distinct (map edge_key (fst st))" by (rule d)
next
  assume a: "map_of (nodeMap g) s = Some fromNode" "getEdgeSegments g fromNode node = None"
  then show n: "snd (handleNodeClick g es (Some s) node) = None"
    by (rule handleNodeClick_failure)
  then show "fst (grid_step g (es, Some s) (NodeClick node)) = es"
    by (cases "handleNodeClick g es (Some s) node") simp
next
  assume "handleNodeClick g es sel node = (sel', Some nextEdges)"
  then obtain s' fromNode' segs where c: "sel = Some s'" "map_of (nodeMap g) s' = Some fromNode'"
    "getEdgeSegments g fromNode' node = Some segs"
    "nextEdges = pushSegments (map edge_key es) es segs"
    using handleNodeClick_call by blast
  have "set (map edge_key nextEdges) = set (map edge_key es) \<union> set (map edge_key segs)"
    unfolding c(4) by (rule pushSegments_keys) simp
  moreover have "\<exists>added. nextEdges = es @ added"
    unfolding c(4) by (rule pushSegments_prefix)
  ultimately show "\<exists>s' fromNode' segs. sel = Some s' \<and> map_of (nodeMap g) s' = Some fromNode'
           \<and> getEdgeSegments g fromNode' node = Some segs
           \<and> set (map edge_key nextEdges) = set (map edge_key es) \<union> set (map edge_key segs)
           \<and> (\<exists>added. nextEdges = es @ added)"
    using c(1,2,3) by blast
qed

lemma pins_click_0: "grid_step pins ([], None) (NodeClick pin0) = ([], Some ''r0c0'')"
  by (simp add: handleNodeClick_def pin_ids)

lemma pins_click_0_2:
  "handleNodeClick pins [] (Some ''r0c0'') pin2
   = (None, Some [unitEdge pin0 pin1, unitEdge pin1 pin2])"
  by (simp add: handleNodeClick_def pin_ids pins_nodeMap canCreateEdge_def pins_gesture_0_2
        unitEdge_def pin_keys set_add_def)

lemma pins_reachable: "reachable pins ([unitEdge pin0 pin1, unitEdge pin1 pin2], None)"
proof -
  have r0: "reachable pins ([], None)" by (rule reachable.initial)
  have "enabled pins ([], None) (NodeClick pin0)" by (simp add: allNodes_def pins_def)
  from reachable.step[OF r0 this] have r1: "reachable pins ([], Some ''r0c0'')"
    by (simp only: pins_click_0)
  have "enabled pins ([], Some ''r0c0'') (NodeClick pin2)" by (simp add: allNodes_def pins_def)
  from reachable.step[OF r1 this] show ?thesis
    by (simp add: pins_click_0_2)
qed

theorem edit_operations_keep_edges_valid_witness:
  "reachable pins ([unitEdge pin0 pin1, unitEdge pin1 pin2], None)
   \<and> edge_key (unitEdge pin0 pin1) = createEdgeKey pin0 pin1
   \<and> edge_key (unitEdge pin0 pin1) \<in> baseEdgeKeys pins
   \<and> edge_key (unitEdge pin1 pin2) \<in> baseEdgeKeys pins
   \<and> distinct (map edge_key [unitEdge pin0 pin1, unitEdge pin1 pin2])
   \<and> getEdgeSegments pins pin2 pin4 = None
   \<and> snd (handleNodeClick pins [unitEdge pin0 pin1, unitEdge pin1 pin2] (Some ''r0c2'') pin4) = None
   \<and> fst (grid_step pins ([unitEdge pin0 pin1, unitEdge pin1 pin2], Some ''r0c2'') (NodeClick pin4))
       = [unitEdge pin0 pin1, unitEdge pin1 pin2]"
proof -
  note t = edit_operations_keep_edges_valid[of pins "([unitEdge pin0 pin1, unitEdge pin1 pin2], None)"
      "''r0c2''" pin2 pin4 "[unitEdge pin0 pin1, unitEdge pin1 pin2]" "Some ''r0c0''" None
      "[unitEdge pin0 pin1, unitEdge pin1 pin2]"]
  have m: "map_of (nodeMap pins) ''r0c2'' = Some pin2" by (simp add: pins_nodeMap)
  note inv = t[THEN conjunct1, THEN mp, OF pins_reachable]
  note fail = t[THEN conjunct2, THEN conjunct1, THEN mp, THEN mp, OF m pins_gesture_2_4]
  show ?thesis
    using pins_reachable inv fail pins_gesture_2_4 by (simp add: unitEdge_def pin_keys)
qed

section \<open>The chord generator\<close>

record ChordEvent =
  chord_type :: string
  chord_notes :: "int list"

text \<open>
  This generator adds lengths and compares the sums, so its arithmetic is the rounded one of
  section \<open>JavaScript numbers\<close>; the coordinate of a node is a finite number. The unit
  direction of an edge is \<^verbatim>\<open>(dx / len, dy / len)\<close>. An edge of length 0 gives \<^verbatim>\<open>0 / 0\<close>, which
  is NaN, and every comparison with a NaN is false.
\<close>

definition unitDirection :: "GridEdge \<Rightarrow> js_number \<times> js_number" where
  "unitDirection edge =
     (let dx = js_sub (Num (node_x (edge_to edge))) (Num (node_x (edge_from edge)));
          dy = js_sub (Num (node_y (edge_to edge))) (Num (node_y (edge_from edge)));
          len = js_hypot dx dy
      in (js_divide dx len, js_divide dy len))"

text \<open>The callback of \<^verbatim>\<open>lines.find\<close>, for the edge at hand.\<close>

definition sameLine :: "GridEdge \<Rightarrow> GridEdge list \<Rightarrow> bool" where
  "sameLine edge grp =
     (case grp of
        [] \<Rightarrow> False
      | first # _ \<Rightarrow>
          (let (nx, ny) = unitDirection edge;
               (nx2, ny2) = unitDirection first;
               dot = js_add (js_mul nx nx2) (js_mul ny ny2)
           in js_greater (js_abs dot) (to_number (999 / 1000))))"

text \<open>\<^verbatim>\<open>if (sameLine) sameLine.push(edge); else lines.push([edge])\<close>, with the \<^verbatim>\<open>find\<close>.\<close>

fun joinLine :: "GridEdge \<Rightarrow> GridEdge list list \<Rightarrow> GridEdge list list" where
  "joinLine edge [] = [[edge]]"
| "joinLine edge (grp # rest) =
     (if sameLine edge grp then (grp @ [edge]) # rest else grp # joinLine edge rest)"

definition groupLines :: "GridEdge list \<Rightarrow> GridEdge list list" where
  "groupLines es = foldl (\<lambda>lines edge. joinLine edge lines) [] es"

record LineInfo =
  info_group :: "GridEdge list"
  info_totalLength :: js_number

definition totalLength :: "GridEdge list \<Rightarrow> js_number" where
  "totalLength grp =
     foldl (\<lambda>acc e. js_add acc
                      (js_hypot (js_sub (Num (node_x (edge_to e))) (Num (node_x (edge_from e))))
                                (js_sub (Num (node_y (edge_to e))) (Num (node_y (edge_from e))))))
       (Num 0) grp"

definition lineInfo :: "GridEdge list list \<Rightarrow> LineInfo list" where
  "lineInfo lines = map (\<lambda>grp. \<lparr>info_group = grp, info_totalLength = totalLength grp\<rparr>) lines"

text \<open>
  \<^verbatim>\<open>.sort((a, b) => b.totalLength - a.totalLength)\<close>. The sort is stable, and it takes a
  comparator value that is NaN for 0. With a comparator that orders the elements
  consistently the result is determined, and an insertion sort computes it: an element goes
  behind exactly the elements after it that the comparator puts strictly before it.
\<close>

definition compareTotals :: "LineInfo \<Rightarrow> LineInfo \<Rightarrow> js_number" where
  "compareTotals a b = js_sub (info_totalLength b) (info_totalLength a)"

fun sort_insert :: "('a \<Rightarrow> 'a \<Rightarrow> js_number) \<Rightarrow> 'a \<Rightarrow> 'a list \<Rightarrow> 'a list" where
  "sort_insert cmp x [] = [x]"
| "sort_insert cmp x (y # ys) =
     (if is_negative (cmp y x) then y # sort_insert cmp x ys else x # y # ys)"

definition js_sort :: "('a \<Rightarrow> 'a \<Rightarrow> js_number) \<Rightarrow> 'a list \<Rightarrow> 'a list" where
  "js_sort cmp xs = foldr (sort_insert cmp) xs []"

definition top4 :: "LineInfo list \<Rightarrow> LineInfo list" where
  "top4 infos = take 4 (js_sort compareTotals infos)"

text \<open>The \<^verbatim>\<open>Set\<close> of the pitches at the end nodes of a line, as \<^verbatim>\<open>Array.from\<close> lists it.\<close>

definition pinsOf :: "int list list \<Rightarrow> GridEdge list \<Rightarrow> int list" where
  "pinsOf layout grp =
     foldl (\<lambda>pins e.
        foldl (\<lambda>pins n. case getNoteFromNode layout (Finite (node_row n)) (Finite (node_col n)) of
                            None \<Rightarrow> pins
                          | Some p \<Rightarrow> set_add pins p)
          pins [edge_from e, edge_to e])
       [] grp"

text \<open>\<^verbatim>\<open>String(n)\<close> for an integer pitch.\<close>

definition number_to_string :: "int \<Rightarrow> string" where
  "number_to_string p = integer_text (Finite p)"

definition fullProgression :: "int list list \<Rightarrow> int list list" where
  "fullProgression chords = map (\<lambda>i. chords ! (i mod length chords)) [0..<4]"

definition generateChordSequence :: "int list list \<Rightarrow> GridEdge list \<Rightarrow> (ChordEvent, string) SequenceData" where
  "generateChordSequence layout es =
     (if length es = 0 then \<lparr>sequence = [], nodeOrder = []\<rparr>
      else
        (let lines = groupLines es;
             chords = map (\<lambda>line. pinsOf layout (info_group line)) (top4 (lineInfo lines));
             progression = fullProgression chords
         in \<lparr>sequence = map (\<lambda>notes. \<lparr>chord_type = ''chord'', chord_notes = notes\<rparr>) progression,
             nodeOrder = map number_to_string (concat progression)\<rparr>))"

text \<open>
  C9. On the empty edge list \<^verbatim>\<open>generateChordSequence\<close> returns the empty sequence and the
  empty nodeOrder, whatever the pitch table.
\<close>

theorem generateChordSequence_empty:
  "generateChordSequence layout [] = \<lparr>sequence = [], nodeOrder = []\<rparr>"
  by (simp add: generateChordSequence_def)

subsection \<open>Clusters\<close>

lemma joinLine_no_match:
  "(\<forall>grp \<in> set lines. \<not> sameLine e grp) \<Longrightarrow> joinLine e lines = lines @ [[e]]"
  by (induction lines) simp_all

lemma joinLine_first_match:
  "i < length lines \<Longrightarrow> sameLine e (lines ! i) \<Longrightarrow> (\<forall>j<i. \<not> sameLine e (lines ! j))
   \<Longrightarrow> joinLine e lines = lines[i := lines ! i @ [e]]"
proof (induction lines arbitrary: i)
  case Nil
  then show ?case by simp
next
  case (Cons grp rest)
  show ?case
  proof (cases i)
    case 0
    then show ?thesis using Cons.prems by simp
  next
    case (Suc i')
    have "\<not> sameLine e grp" using Cons.prems(3) Suc by auto
    moreover have "joinLine e rest = rest[i' := rest ! i' @ [e]]"
      using Cons.prems Suc by (intro Cons.IH) auto
    ultimately show ?thesis using Suc by simp
  qed
qed

lemma groupLines_snoc: "groupLines (es @ [e]) = joinLine e (groupLines es)"
  by (simp add: groupLines_def)

lemma count_concat_joinLine:
  "count_list (concat (joinLine e lines)) x = count_list (concat lines) x + (if x = e then 1 else 0)"
  by (induction lines) auto

lemma count_concat_groupLines: "count_list (concat (groupLines es)) x = count_list es x"
proof (induction es rule: rev_induct)
  case Nil
  then show ?case by (simp add: groupLines_def)
next
  case (snoc e es)
  then show ?case by (simp add: groupLines_snoc count_concat_joinLine)
qed

lemma joinLine_nonempty: "[] \<notin> set lines \<Longrightarrow> [] \<notin> set (joinLine e lines)"
  by (induction lines) auto

lemma groupLines_nonempty: "[] \<notin> set (groupLines es)"
proof (induction es rule: rev_induct)
  case Nil
  then show ?case by (simp add: groupLines_def)
next
  case (snoc e es)
  then show ?case by (simp add: groupLines_snoc joinLine_nonempty)
qed

lemma joinLine_not_Nil: "joinLine e lines \<noteq> []"
  by (cases lines) simp_all

lemma groupLines_not_Nil: "es \<noteq> [] \<Longrightarrow> groupLines es \<noteq> []"
  by (cases es rule: rev_cases) (simp_all add: groupLines_snoc joinLine_not_Nil)

text \<open>Every member of a cluster other than its reference edge is on the line of the reference.\<close>

definition cluster_ok :: "GridEdge list \<Rightarrow> bool" where
  "cluster_ok grp = (grp \<noteq> [] \<and> list_all (\<lambda>e. sameLine e [hd grp]) (tl grp))"

lemma sameLine_hd: "grp \<noteq> [] \<Longrightarrow> sameLine e grp = sameLine e [hd grp]"
  by (cases grp) (simp_all add: sameLine_def)

lemma joinLine_cluster_ok:
  "list_all cluster_ok lines \<Longrightarrow> list_all cluster_ok (joinLine e lines)"
proof (induction lines)
  case Nil
  then show ?case by (simp add: cluster_ok_def)
next
  case (Cons grp rest)
  show ?case
  proof (cases "sameLine e grp")
    case True
    have ne: "grp \<noteq> []" using Cons.prems by (simp add: cluster_ok_def)
    then have "sameLine e [hd grp]" using True sameLine_hd by blast
    then have "cluster_ok (grp @ [e])" using Cons.prems ne by (simp add: cluster_ok_def)
    then show ?thesis using True Cons.prems by simp
  next
    case False
    then show ?thesis using Cons by simp
  qed
qed

lemma groupLines_cluster_ok: "list_all cluster_ok (groupLines es)"
proof (induction es rule: rev_induct)
  case Nil
  then show ?case by (simp add: groupLines_def)
next
  case (snoc e es)
  then show ?case by (simp add: groupLines_snoc joinLine_cluster_ok)
qed

subsection \<open>Total lengths\<close>

text \<open>
  A total length is a number that is not negative, or \<^verbatim>\<open>Infinity\<close>; never NaN. On such
  values the comparator of the sort is negative exactly when its first argument has the
  larger total.
\<close>

definition good_total :: "js_number \<Rightarrow> bool" where
  "good_total t =
     (t = PosInfinity \<or> (\<exists>r n. t = Num r \<and> 0 \<le> r \<and> r = real_of_int n * 2 powi (- 1074)))"

lemma to_number_cases:
  "to_number v = PosInfinity \<or> to_number v = NegInfinity \<or> to_number v = Num (nearest_double v)"
  by (simp add: to_number_def Let_def)

lemma to_number_good:
  assumes "0 \<le> v"
  shows "good_total (to_number v)"
proof -
  have r: "0 \<le> nearest_double v" using assms by (rule nearest_double_nonneg)
  then have "\<not> nearest_double v \<le> - (2 ^ 1024)" by simp
  then have "to_number v = PosInfinity \<or> to_number v = Num (nearest_double v)"
    by (simp add: to_number_def Let_def)
  then show ?thesis using r nearest_double_grid[of v] unfolding good_total_def by blast
qed

lemma js_hypot_good:
  assumes "x \<noteq> NaN" "y \<noteq> NaN"
  shows "good_total (js_hypot x y)"
proof (cases x)
  case (Num a)
  show ?thesis
  proof (cases y)
    case (Num b)
    have "0 \<le> sqrt (a * a + b * b)" by simp
    then show ?thesis using \<open>x = Num a\<close> Num to_number_good by simp
  qed (use Num assms in \<open>simp_all add: good_total_def\<close>)
qed (use assms in \<open>simp_all add: good_total_def\<close>)

lemma js_sub_not_NaN: "js_sub (Num a) (Num b) \<noteq> NaN"
  using to_number_cases[of "a + - b"] by (auto simp: js_sub_def)

lemma edge_length_good:
  "good_total (js_hypot (js_sub (Num a) (Num b)) (js_sub (Num c) (Num d)))"
  by (rule js_hypot_good) (rule js_sub_not_NaN)+

lemma js_add_good:
  assumes "good_total a" "good_total b"
  shows "good_total (js_add a b)"
proof -
  consider "a = PosInfinity" | "b = PosInfinity"
    | ra rb where "a = Num ra" "b = Num rb" "0 \<le> ra" "0 \<le> rb"
    using assms unfolding good_total_def by blast
  then show ?thesis
  proof cases
    case 1
    then show ?thesis using assms(2) by (auto simp: good_total_def)
  next
    case 2
    then show ?thesis using assms(1) by (auto simp: good_total_def)
  next
    case 3
    then have "0 \<le> ra + rb" by simp
    then show ?thesis using 3 to_number_good by simp
  qed
qed

lemma foldl_length_good:
  "good_total acc \<Longrightarrow>
   good_total (foldl (\<lambda>acc e. js_add acc
                      (js_hypot (js_sub (Num (node_x (edge_to e))) (Num (node_x (edge_from e))))
                                (js_sub (Num (node_y (edge_to e))) (Num (node_y (edge_from e))))))
       acc grp)"
  by (induction grp arbitrary: acc) (simp_all add: js_add_good edge_length_good)

lemma totalLength_good: "good_total (totalLength grp)"
proof -
  have "good_total (Num 0)" unfolding good_total_def by (intro disjI2 exI[of _ 0]) simp
  then show ?thesis unfolding totalLength_def by (rule foldl_length_good)
qed

lemma totalLength_not_NaN: "totalLength grp \<noteq> NaN"
  using totalLength_good[of grp] by (auto simp: good_total_def)

lemma totalLength_Nil: "totalLength [] = Num 0"
  by (simp add: totalLength_def)

lemma totalLength_snoc:
  "totalLength (grp @ [e])
   = js_add (totalLength grp)
       (js_hypot (js_sub (Num (node_x (edge_to e))) (Num (node_x (edge_from e))))
                 (js_sub (Num (node_y (edge_to e))) (Num (node_y (edge_from e)))))"
  by (simp add: totalLength_def)

lemma compare_good:
  assumes "good_total a" "good_total b"
  shows "is_negative (js_sub b a) = js_greater a b"
proof -
  consider "a = PosInfinity" "b = PosInfinity"
    | rb where "a = PosInfinity" "b = Num rb"
    | ra where "a = Num ra" "b = PosInfinity"
    | ra rb na nb where "a = Num ra" "b = Num rb" "ra = real_of_int na * 2 powi (- 1074)"
        "rb = real_of_int nb * 2 powi (- 1074)"
    using assms unfolding good_total_def by blast
  then show ?thesis
  proof cases
    case 4
    have "is_negative (js_sub b a) = (nearest_double (rb - ra) < 0)"
      using 4(1,2) by (simp add: js_sub_def is_negative_to_number)
    also have "\<dots> = (rb < ra)" using 4(3,4) by (rule nearest_double_difference)
    finally show ?thesis using 4(1,2) by simp
  qed (simp_all add: js_sub_def is_negative_def)
qed

lemma js_greater_irrefl: "\<not> js_greater x x"
  by (cases x) simp_all

lemma js_greater_asym: "js_greater x y \<Longrightarrow> \<not> js_greater y x"
  by (cases x; cases y) simp_all

lemma not_greater_trans:
  "\<not> js_greater b a \<Longrightarrow> \<not> js_greater c b \<Longrightarrow> b \<noteq> NaN \<Longrightarrow> \<not> js_greater c a"
  by (cases a; cases b; cases c) simp_all

subsection \<open>Ranking and the four slots\<close>

definition ranked :: "GridEdge list \<Rightarrow> LineInfo list" where
  "ranked es = js_sort compareTotals (lineInfo (groupLines es))"

lemma length_sort_insert: "length (sort_insert cmp x ys) = Suc (length ys)"
  by (induction ys) simp_all

lemma length_js_sort: "length (js_sort cmp xs) = length xs"
  by (induction xs) (simp_all add: js_sort_def length_sort_insert)

lemma count_sort_insert: "count_list (sort_insert cmp y ys) x = count_list (y # ys) x"
  by (induction ys) auto

lemma count_js_sort: "count_list (js_sort cmp xs) x = count_list xs x"
  by (induction xs) (simp_all add: js_sort_def count_sort_insert)

lemma set_sort_insert: "set (sort_insert cmp x ys) = insert x (set ys)"
  by (induction ys) auto

lemma set_js_sort: "set (js_sort cmp xs) = set xs"
  by (induction xs) (simp_all add: js_sort_def set_sort_insert)

lemma length_ranked: "length (ranked es) = length (groupLines es)"
  by (simp add: ranked_def lineInfo_def length_js_sort)

lemma ranked_totals: "list_all (\<lambda>a. info_totalLength a = totalLength (info_group a)) (ranked es)"
  by (auto simp: ranked_def lineInfo_def list_all_iff set_js_sort)

lemma count_ranked: "count_list (ranked es) x = count_list (lineInfo (groupLines es)) x"
  by (simp add: ranked_def count_js_sort)

text \<open>No cluster is longer than one ranked before it.\<close>

definition not_longer :: "LineInfo \<Rightarrow> LineInfo \<Rightarrow> bool" where
  "not_longer a b = (\<not> js_greater (info_totalLength b) (info_totalLength a))"

lemma sort_insert_sorted:
  assumes "good_total (info_totalLength x)" "\<forall>y \<in> set ys. good_total (info_totalLength y)"
    "sorted_wrt not_longer ys"
  shows "sorted_wrt not_longer (sort_insert compareTotals x ys)"
  using assms(2,3)
proof (induction ys)
  case Nil
  then show ?case by simp
next
  case (Cons y ys)
  have gy: "good_total (info_totalLength y)" using Cons.prems(1) by simp
  have c: "is_negative (compareTotals y x) = js_greater (info_totalLength y) (info_totalLength x)"
    unfolding compareTotals_def using gy assms(1) by (rule compare_good)
  show ?case
  proof (cases "is_negative (compareTotals y x)")
    case True
    then have "not_longer y x" using c js_greater_asym unfolding not_longer_def by blast
    moreover have "\<forall>z \<in> set ys. not_longer y z" using Cons.prems(2) by simp
    moreover have "sorted_wrt not_longer (sort_insert compareTotals x ys)"
      using Cons by simp
    ultimately show ?thesis using True by (simp add: set_sort_insert)
  next
    case False
    then have xy: "not_longer x y" using c unfolding not_longer_def by simp
    have ny: "info_totalLength y \<noteq> NaN" using gy by (auto simp: good_total_def)
    have "not_longer x z" if "z \<in> set ys" for z
    proof -
      have "not_longer y z" using Cons.prems(2) that by simp
      then show ?thesis using xy ny not_greater_trans unfolding not_longer_def by blast
    qed
    then show ?thesis using False xy Cons.prems(2) by simp
  qed
qed

lemma js_sort_sorted:
  assumes "\<forall>y \<in> set xs. good_total (info_totalLength y)"
  shows "sorted_wrt not_longer (js_sort compareTotals xs)"
  using assms
proof (induction xs)
  case Nil
  then show ?case by (simp add: js_sort_def)
next
  case (Cons x xs)
  have "sorted_wrt not_longer (js_sort compareTotals xs)" using Cons by simp
  moreover have "\<forall>y \<in> set (js_sort compareTotals xs). good_total (info_totalLength y)"
    using Cons.prems by (simp add: set_js_sort)
  moreover have "good_total (info_totalLength x)" using Cons.prems by simp
  ultimately have "sorted_wrt not_longer (sort_insert compareTotals x (js_sort compareTotals xs))"
    by (intro sort_insert_sorted)
  then show ?case by (simp add: js_sort_def)
qed

lemma ranked_descending:
  assumes "i \<le> j" "j < length (ranked es)"
  shows "\<not> js_greater (info_totalLength (ranked es ! j)) (info_totalLength (ranked es ! i))"
proof (cases "i = j")
  case True
  then show ?thesis by (simp add: js_greater_irrefl)
next
  case False
  then have lt: "i < j" using assms(1) by simp
  have "\<forall>y \<in> set (lineInfo (groupLines es)). good_total (info_totalLength y)"
    by (auto simp: lineInfo_def totalLength_good)
  then have "sorted_wrt not_longer (ranked es)"
    unfolding ranked_def by (rule js_sort_sorted)
  then have "not_longer (ranked es ! i) (ranked es ! j)"
    using lt assms(2) by (simp add: sorted_wrt_iff_nth_less)
  then show ?thesis by (simp add: not_longer_def)
qed

lemma generateChordSequence_nonempty:
  assumes "es \<noteq> []"
  shows "sequence (generateChordSequence layout es)
         = map (\<lambda>notes. \<lparr>chord_type = ''chord'', chord_notes = notes\<rparr>)
             (fullProgression (map (\<lambda>line. pinsOf layout (info_group line)) (take 4 (ranked es))))"
    and "nodeOrder (generateChordSequence layout es)
         = map number_to_string
             (concat (fullProgression (map (\<lambda>line. pinsOf layout (info_group line)) (take 4 (ranked es)))))"
  using assms by (simp_all add: generateChordSequence_def Let_def top4_def ranked_def)

lemma chord_slots:
  assumes "es \<noteq> []" "i < 4"
  shows "sequence (generateChordSequence layout es) ! i
         = \<lparr>chord_type = ''chord'',
            chord_notes = pinsOf layout (info_group (ranked es ! (i mod min (length (groupLines es)) 4)))\<rparr>"
proof -
  let ?k = "min (length (groupLines es)) 4"
  let ?chords = "map (\<lambda>line. pinsOf layout (info_group line)) (take 4 (ranked es))"
  have k: "0 < ?k" using groupLines_not_Nil[OF assms(1)] by simp
  have len: "length ?chords = ?k" by (simp add: length_ranked min.commute)
  have m: "i mod ?k < ?k" using k by (rule mod_less_divisor)
  then have "i mod ?k < length (take 4 (ranked es))" by (simp add: length_ranked)
  then have "?chords ! (i mod ?k) = pinsOf layout (info_group (ranked es ! (i mod ?k)))"
    using m by (simp del: length_take)
  moreover have "fullProgression ?chords ! i = ?chords ! (i mod length ?chords)"
    using assms(2) unfolding fullProgression_def by (simp del: upt_Suc)
  ultimately show ?thesis
    using assms(2) unfolding generateChordSequence_nonempty(1)[OF assms(1)] len
    by (simp add: fullProgression_def del: upt_Suc)
qed

lemma upt_0_4: "[0..<4] = [0, 1, 2, 3]"
  by code_simp

lemma sameLine_iff:
  "sameLine e grp =
     (grp \<noteq> []
      \<and> js_greater
          (js_abs (js_add (js_mul (fst (unitDirection e)) (fst (unitDirection (hd grp))))
                          (js_mul (snd (unitDirection e)) (snd (unitDirection (hd grp))))))
          (to_number (999 / 1000)))"
  by (cases grp) (simp_all add: sameLine_def Let_def split: prod.splits)

lemma unitDirection_eq:
  "unitDirection e =
     (js_divide (js_sub (Num (node_x (edge_to e))) (Num (node_x (edge_from e))))
                (js_hypot (js_sub (Num (node_x (edge_to e))) (Num (node_x (edge_from e))))
                          (js_sub (Num (node_y (edge_to e))) (Num (node_y (edge_from e))))),
      js_divide (js_sub (Num (node_y (edge_to e))) (Num (node_y (edge_from e))))
                (js_hypot (js_sub (Num (node_x (edge_to e))) (Num (node_x (edge_from e))))
                          (js_sub (Num (node_y (edge_to e))) (Num (node_y (edge_from e))))))"
  by (simp add: unitDirection_def Let_def)

lemma to_number_numeral:
  "(numeral n :: int) < 2 ^ 53 \<Longrightarrow> to_number (numeral n) = Num (numeral n)"
  using to_number_of_int[of "numeral n"] by simp

lemma to_number_neg_numeral:
  "(numeral n :: int) < 2 ^ 53 \<Longrightarrow> to_number (- numeral n) = Num (- numeral n)"
  using to_number_of_int[of "- numeral n"] by simp

lemma to_number_0: "to_number 0 = Num 0"
  using to_number_of_int[of 0] by simp

lemma to_number_1: "to_number 1 = Num 1"
  using to_number_of_int[of 1] by simp

lemma to_number_minus_1: "to_number (- 1) = Num (- 1)"
  using to_number_of_int[of "- 1"] by simp

lemmas to_number_simps =
  to_number_numeral to_number_neg_numeral to_number_0 to_number_1 to_number_minus_1

lemma ranked_two:
  assumes "groupLines es = [long, short] \<or> groupLines es = [short, long]"
    "totalLength long = Num 100" "totalLength short = Num 50"
  shows "ranked es = [\<lparr>info_group = long, info_totalLength = Num 100\<rparr>,
                      \<lparr>info_group = short, info_totalLength = Num 50\<rparr>]"
  using assms
  by (auto simp: ranked_def lineInfo_def js_sort_def compareTotals_def js_sub_def is_negative_def
        to_number_simps)

lemma chord_two_clusters:
  assumes "es \<noteq> []" "groupLines es = [long, short] \<or> groupLines es = [short, long]"
    "totalLength long = Num 100" "totalLength short = Num 50"
  shows "map chord_notes (sequence (generateChordSequence layout es))
         = [pinsOf layout long, pinsOf layout short, pinsOf layout long, pinsOf layout short]"
proof -
  have m: "(2::nat) mod Suc (Suc 0) = 0" "(3::nat) mod Suc (Suc 0) = Suc 0" by arith+
  show ?thesis
    unfolding generateChordSequence_nonempty(1)[OF assms(1)] ranked_two[OF assms(2,3,4)]
    by (simp add: fullProgression_def upt_0_4 m)
qed

text \<open>
  C5. For a non-empty edge list: an edge joins the first cluster whose reference (first)
  edge has a unit direction with absolute dot product above 0.999 with the edge's own, and
  starts a new cluster when there is none; the clusters partition the edges. The unit
  direction of an edge is its coordinate difference divided by its length, and the total
  length of a cluster is the sum of the lengths of its members, added from left to right;
  every operation rounds as JavaScript does, and a total is never NaN. The clusters are
  ranked by total length, largest first: no cluster is longer than one ranked before it.
  With \<open>k\<close> the smaller of the number of clusters and 4, slot \<open>i\<close> of the four holds the
  chord of the cluster of rank \<open>i mod k\<close>. Two clusters of total lengths 100 and 50 give
  long, short, long, short.
\<close>

theorem generateChordSequence_progression:
  "(es \<noteq> [] \<longrightarrow>
      1 \<le> min (length (groupLines es)) 4
      \<and> length (sequence (generateChordSequence layout es)) = 4
      \<and> (\<forall>i<4. sequence (generateChordSequence layout es) ! i
            = \<lparr>chord_type = ''chord'',
               chord_notes = pinsOf layout
                 (info_group (ranked es ! (i mod min (length (groupLines es)) 4)))\<rparr>)
      \<and> length (ranked es) = length (groupLines es)
      \<and> (\<forall>x. count_list (ranked es) x = count_list (lineInfo (groupLines es)) x)
      \<and> (\<forall>i j. i \<le> j \<longrightarrow> j < length (ranked es)
            \<longrightarrow> \<not> js_greater (info_totalLength (ranked es ! j)) (info_totalLength (ranked es ! i)))
      \<and> list_all (\<lambda>a. info_totalLength a = totalLength (info_group a)) (ranked es)
      \<and> (\<forall>x. count_list (concat (groupLines es)) x = count_list es x)
      \<and> list_all cluster_ok (groupLines es))
   \<and> ((\<forall>grp \<in> set (groupLines pre). \<not> sameLine e grp)
        \<longrightarrow> groupLines (pre @ [e]) = groupLines pre @ [[e]])
   \<and> (\<forall>i<length (groupLines pre).
         sameLine e (groupLines pre ! i) \<and> (\<forall>j<i. \<not> sameLine e (groupLines pre ! j))
         \<longrightarrow> groupLines (pre @ [e]) = (groupLines pre)[i := groupLines pre ! i @ [e]])
   \<and> sameLine e grp =
        (grp \<noteq> []
         \<and> js_greater
             (js_abs (js_add (js_mul (fst (unitDirection e)) (fst (unitDirection (hd grp))))
                             (js_mul (snd (unitDirection e)) (snd (unitDirection (hd grp))))))
             (to_number (999 / 1000)))
   \<and> unitDirection e =
        (js_divide (js_sub (Num (node_x (edge_to e))) (Num (node_x (edge_from e))))
                   (js_hypot (js_sub (Num (node_x (edge_to e))) (Num (node_x (edge_from e))))
                             (js_sub (Num (node_y (edge_to e))) (Num (node_y (edge_from e))))),
         js_divide (js_sub (Num (node_y (edge_to e))) (Num (node_y (edge_from e))))
                   (js_hypot (js_sub (Num (node_x (edge_to e))) (Num (node_x (edge_from e))))
                             (js_sub (Num (node_y (edge_to e))) (Num (node_y (edge_from e))))))
   \<and> totalLength [] = Num 0
   \<and> totalLength (grp @ [e])
        = js_add (totalLength grp)
            (js_hypot (js_sub (Num (node_x (edge_to e))) (Num (node_x (edge_from e))))
                      (js_sub (Num (node_y (edge_to e))) (Num (node_y (edge_from e)))))
   \<and> totalLength grp \<noteq> NaN
   \<and> (es \<noteq> [] \<and> (groupLines es = [long, short] \<or> groupLines es = [short, long])
        \<and> totalLength long = Num 100 \<and> totalLength short = Num 50
        \<longrightarrow> map chord_notes (sequence (generateChordSequence layout es))
            = [pinsOf layout long, pinsOf layout short, pinsOf layout long, pinsOf layout short])"
proof (intro conjI)
  show "es \<noteq> [] \<longrightarrow>
      1 \<le> min (length (groupLines es)) 4
      \<and> length (sequence (generateChordSequence layout es)) = 4
      \<and> (\<forall>i<4. sequence (generateChordSequence layout es) ! i
            = \<lparr>chord_type = ''chord'',
               chord_notes = pinsOf layout
                 (info_group (ranked es ! (i mod min (length (groupLines es)) 4)))\<rparr>)
      \<and> length (ranked es) = length (groupLines es)
      \<and> (\<forall>x. count_list (ranked es) x = count_list (lineInfo (groupLines es)) x)
      \<and> (\<forall>i j. i \<le> j \<longrightarrow> j < length (ranked es)
            \<longrightarrow> \<not> js_greater (info_totalLength (ranked es ! j)) (info_totalLength (ranked es ! i)))
      \<and> list_all (\<lambda>a. info_totalLength a = totalLength (info_group a)) (ranked es)
      \<and> (\<forall>x. count_list (concat (groupLines es)) x = count_list es x)
      \<and> list_all cluster_ok (groupLines es)"
  proof
    assume ne: "es \<noteq> []"
    have "1 \<le> min (length (groupLines es)) 4"
      using groupLines_not_Nil[OF ne] by (cases "groupLines es") simp_all
    moreover have "length (sequence (generateChordSequence layout es)) = 4"
      unfolding generateChordSequence_nonempty(1)[OF ne] by (simp add: fullProgression_def)
    moreover have "\<forall>i<4. sequence (generateChordSequence layout es) ! i
            = \<lparr>chord_type = ''chord'',
               chord_notes = pinsOf layout
                 (info_group (ranked es ! (i mod min (length (groupLines es)) 4)))\<rparr>"
      using chord_slots[OF ne] by blast
    moreover have "\<forall>i j. i \<le> j \<longrightarrow> j < length (ranked es)
            \<longrightarrow> \<not> js_greater (info_totalLength (ranked es ! j)) (info_totalLength (ranked es ! i))"
      using ranked_descending by blast
    ultimately show "1 \<le> min (length (groupLines es)) 4
      \<and> length (sequence (generateChordSequence layout es)) = 4
      \<and> (\<forall>i<4. sequence (generateChordSequence layout es) ! i
            = \<lparr>chord_type = ''chord'',
               chord_notes = pinsOf layout
                 (info_group (ranked es ! (i mod min (length (groupLines es)) 4)))\<rparr>)
      \<and> length (ranked es) = length (groupLines es)
      \<and> (\<forall>x. count_list (ranked es) x = count_list (lineInfo (groupLines es)) x)
      \<and> (\<forall>i j. i \<le> j \<longrightarrow> j < length (ranked es)
            \<longrightarrow> \<not> js_greater (info_totalLength (ranked es ! j)) (info_totalLength (ranked es ! i)))
      \<and> list_all (\<lambda>a. info_totalLength a = totalLength (info_group a)) (ranked es)
      \<and> (\<forall>x. count_list (concat (groupLines es)) x = count_list es x)
      \<and> list_all cluster_ok (groupLines es)"
      using length_ranked count_ranked ranked_totals count_concat_groupLines groupLines_cluster_ok
      by blast
  qed
next
  show "(\<forall>grp \<in> set (groupLines pre). \<not> sameLine e grp)
        \<longrightarrow> groupLines (pre @ [e]) = groupLines pre @ [[e]]"
    by (simp add: groupLines_snoc joinLine_no_match)
next
  show "\<forall>i<length (groupLines pre).
         sameLine e (groupLines pre ! i) \<and> (\<forall>j<i. \<not> sameLine e (groupLines pre ! j))
         \<longrightarrow> groupLines (pre @ [e]) = (groupLines pre)[i := groupLines pre ! i @ [e]]"
    by (simp add: groupLines_snoc joinLine_first_match)
next
  show "sameLine e grp =
        (grp \<noteq> []
         \<and> js_greater
             (js_abs (js_add (js_mul (fst (unitDirection e)) (fst (unitDirection (hd grp))))
                             (js_mul (snd (unitDirection e)) (snd (unitDirection (hd grp))))))
             (to_number (999 / 1000)))"
    by (rule sameLine_iff)
next
  show "unitDirection e =
        (js_divide (js_sub (Num (node_x (edge_to e))) (Num (node_x (edge_from e))))
                   (js_hypot (js_sub (Num (node_x (edge_to e))) (Num (node_x (edge_from e))))
                             (js_sub (Num (node_y (edge_to e))) (Num (node_y (edge_from e))))),
         js_divide (js_sub (Num (node_y (edge_to e))) (Num (node_y (edge_from e))))
                   (js_hypot (js_sub (Num (node_x (edge_to e))) (Num (node_x (edge_from e))))
                             (js_sub (Num (node_y (edge_to e))) (Num (node_y (edge_from e))))))"
    by (rule unitDirection_eq)
next
  show "totalLength [] = Num 0" by (rule totalLength_Nil)
next
  show "totalLength (grp @ [e])
        = js_add (totalLength grp)
            (js_hypot (js_sub (Num (node_x (edge_to e))) (Num (node_x (edge_from e))))
                      (js_sub (Num (node_y (edge_to e))) (Num (node_y (edge_from e)))))"
    by (rule totalLength_snoc)
next
  show "totalLength grp \<noteq> NaN" by (rule totalLength_not_NaN)
next
  show "es \<noteq> [] \<and> (groupLines es = [long, short] \<or> groupLines es = [short, long])
        \<and> totalLength long = Num 100 \<and> totalLength short = Num 50
        \<longrightarrow> map chord_notes (sequence (generateChordSequence layout es))
            = [pinsOf layout long, pinsOf layout short, pinsOf layout long, pinsOf layout short]"
    using chord_two_clusters by blast
qed

text \<open>
  A corner. The slanted side, from (0, 0) to (30, 40) and so of length 50, is drawn first;
  the horizontal side of length 100 is drawn as two edges, of lengths 60 and 40, the second
  from right to left. The direction of the slanted side is (0.6, 0.8) as the divisions round
  it.
\<close>

definition layout3 :: "int list list" where
  "layout3 = [[60, 62, 64], [65, 67, 69]]"

definition cornerShort :: GridEdge where
  "cornerShort =
     \<lparr>edge_key = ''r0c0-r1c0'',
      edge_from = \<lparr>node_id = ''r0c0'', node_x = 0, node_y = 0, node_row = 0, node_col = 0\<rparr>,
      edge_to = \<lparr>node_id = ''r1c0'', node_x = 30, node_y = 40, node_row = 1, node_col = 0\<rparr>\<rparr>"

definition cornerLongLeft :: GridEdge where
  "cornerLongLeft =
     \<lparr>edge_key = ''r0c0-r0c1'',
      edge_from = \<lparr>node_id = ''r0c0'', node_x = 0, node_y = 0, node_row = 0, node_col = 0\<rparr>,
      edge_to = \<lparr>node_id = ''r0c1'', node_x = 60, node_y = 0, node_row = 0, node_col = 1\<rparr>\<rparr>"

definition cornerLongRight :: GridEdge where
  "cornerLongRight =
     \<lparr>edge_key = ''r0c1-r0c2'',
      edge_from = \<lparr>node_id = ''r0c2'', node_x = 100, node_y = 0, node_row = 0, node_col = 2\<rparr>,
      edge_to = \<lparr>node_id = ''r0c1'', node_x = 60, node_y = 0, node_row = 0, node_col = 1\<rparr>\<rparr>"

text \<open>
  Two horizontal edges, of lengths \<open>2 ^ 53\<close> and 1: the sum \<open>2 ^ 53 + 1\<close> is not a number,
  and the total of the two is \<open>2 ^ 53\<close>. A vertical edge of length \<open>2 ^ 53\<close> drawn before them
  has the same total, the comparator gives 0, and its cluster stays first.
\<close>

definition upEdge :: GridEdge where
  "upEdge =
     \<lparr>edge_key = ''r0c0-r1c0'',
      edge_from = \<lparr>node_id = ''r0c0'', node_x = 0, node_y = 0, node_row = 0, node_col = 0\<rparr>,
      edge_to = \<lparr>node_id = ''r1c0'', node_x = 0, node_y = 9007199254740992, node_row = 1, node_col = 0\<rparr>\<rparr>"

definition farEdge :: GridEdge where
  "farEdge =
     \<lparr>edge_key = ''r0c0-r0c1'',
      edge_from = \<lparr>node_id = ''r0c0'', node_x = 0, node_y = 0, node_row = 0, node_col = 0\<rparr>,
      edge_to = \<lparr>node_id = ''r0c1'', node_x = 9007199254740992, node_y = 0, node_row = 0, node_col = 1\<rparr>\<rparr>"

definition nearEdge :: GridEdge where
  "nearEdge =
     \<lparr>edge_key = ''r1c0-r1c1'',
      edge_from = \<lparr>node_id = ''r1c0'', node_x = 0, node_y = 5, node_row = 1, node_col = 0\<rparr>,
      edge_to = \<lparr>node_id = ''r1c1'', node_x = 1, node_y = 5, node_row = 1, node_col = 1\<rparr>\<rparr>"

lemma js_hypot_axis:
  "js_hypot (Num a) (Num 0) = to_number \<bar>a\<bar>" "js_hypot (Num 0) (Num b) = to_number \<bar>b\<bar>"
  by simp_all

lemma to_number_three_fifths: "to_number (3 / 5) = Num (5404319552844595 / 9007199254740992)"
proof -
  have "nearest_double (3 / 5)
        = real_of_int (round_half_even ((3 / 5) / 2 powi (-1 - 52))) * 2 powi (-1 - 52)"
    by (rule nearest_double_between) (simp_all add: power_int_minus)
  moreover have "round_half_even ((3 / 5) / 2 powi (-1 - 52)) = 5404319552844595"
    by (rule round_half_even_eq) (simp_all add: power_int_minus)
  ultimately have "nearest_double (3 / 5) = 5404319552844595 / 9007199254740992"
    by (simp add: power_int_minus)
  then show ?thesis by (simp add: to_number_def)
qed

lemma to_number_four_fifths: "to_number (4 / 5) = Num (7205759403792794 / 9007199254740992)"
proof -
  have "nearest_double (4 / 5)
        = real_of_int (round_half_even ((4 / 5) / 2 powi (-1 - 52))) * 2 powi (-1 - 52)"
    by (rule nearest_double_between) (simp_all add: power_int_minus)
  moreover have "round_half_even ((4 / 5) / 2 powi (-1 - 52)) = 7205759403792794"
    by (rule round_half_even_eq) (simp_all add: power_int_minus)
  ultimately have "nearest_double (4 / 5) = 7205759403792794 / 9007199254740992"
    by (simp add: power_int_minus)
  then show ?thesis by (simp add: to_number_def)
qed

lemma nearest_double_point_six:
  "nearest_double (5404319552844595 / 9007199254740992) = 5404319552844595 / 9007199254740992"
proof -
  have "nearest_double (5404319552844595 / 9007199254740992)
        = real_of_int (round_half_even ((5404319552844595 / 9007199254740992) / 2 powi (-1 - 52)))
          * 2 powi (-1 - 52)"
    by (rule nearest_double_between) (simp_all add: power_int_minus)
  moreover have "((5404319552844595 / 9007199254740992)::real) / 2 powi (-1 - 52)
                 = real_of_int 5404319552844595"
    by (simp add: power_int_minus)
  ultimately show ?thesis by (simp only: round_half_even_of_int) (simp add: power_int_minus)
qed

lemma to_number_point_six:
  "to_number (5404319552844595 / 9007199254740992) = Num (5404319552844595 / 9007199254740992)"
  "to_number (- (5404319552844595 / 9007199254740992)) = Num (- (5404319552844595 / 9007199254740992))"
  by (simp_all add: to_number_def nearest_double_minus nearest_double_point_six)

lemma sqrt_2500: "sqrt 2500 = 50"
  by (rule real_sqrt_unique) simp_all

lemma to_number_999: "to_number (999 / 1000) = Num (8998192055486251 / 2 ^ 53)"
proof -
  have "nearest_double (999 / 1000)
        = real_of_int (round_half_even ((999 / 1000) / 2 powi (-1 - 52))) * 2 powi (-1 - 52)"
    by (rule nearest_double_between) (simp_all add: power_int_minus)
  moreover have "round_half_even ((999 / 1000) / 2 powi (-1 - 52)) = 8998192055486251"
    by (rule round_half_even_eq) (simp_all add: power_int_minus)
  ultimately have "nearest_double (999 / 1000) = 8998192055486251 / 2 ^ 53"
    by (simp add: power_int_minus)
  then show ?thesis by (simp add: to_number_def)
qed

lemma to_number_2_53: "to_number 9007199254740992 = Num 9007199254740992"
  by (simp add: to_number_def nearest_double_2_53)

lemma to_number_2_53_plus_1: "to_number 9007199254740993 = Num 9007199254740992"
  by (simp add: to_number_def nearest_double_2_53_plus_1)

lemma corner_directions:
  "unitDirection cornerShort
   = (Num (5404319552844595 / 9007199254740992), Num (7205759403792794 / 9007199254740992))"
  "unitDirection cornerLongLeft = (Num 1, Num 0)"
  "unitDirection cornerLongRight = (Num (- 1), Num 0)"
  by (simp_all add: unitDirection_def cornerShort_def cornerLongLeft_def cornerLongRight_def
        Let_def js_sub_def to_number_simps js_hypot_axis sqrt_2500 to_number_three_fifths
        to_number_four_fifths)

lemma corner_sameLine:
  "\<not> sameLine cornerLongLeft [cornerShort]" "\<not> sameLine cornerLongRight [cornerShort]"
  "sameLine cornerLongRight [cornerLongLeft]"
  by (simp_all add: sameLine_def corner_directions to_number_simps to_number_999
        to_number_point_six)

lemma corner_groupLines:
  "groupLines [cornerShort, cornerLongLeft, cornerLongRight]
   = [[cornerShort], [cornerLongLeft, cornerLongRight]]"
  by (simp add: groupLines_def corner_sameLine)

lemma corner_totals:
  "totalLength [cornerLongLeft, cornerLongRight] = Num 100" "totalLength [cornerShort] = Num 50"
  by (simp_all add: totalLength_def cornerShort_def cornerLongLeft_def cornerLongRight_def
        js_sub_def to_number_simps js_hypot_axis sqrt_2500)

lemma far_near_total:
  "totalLength [farEdge, nearEdge] = Num 9007199254740992"
  "totalLength [upEdge] = Num 9007199254740992"
  by (simp_all add: totalLength_def farEdge_def nearEdge_def upEdge_def js_sub_def to_number_simps
        js_hypot_axis to_number_2_53 to_number_2_53_plus_1 del: js_hypot.simps)

lemma far_near_directions:
  "unitDirection upEdge = (Num 0, Num 1)" "unitDirection farEdge = (Num 1, Num 0)"
  "unitDirection nearEdge = (Num 1, Num 0)"
  by (simp_all add: unitDirection_def farEdge_def nearEdge_def upEdge_def Let_def js_sub_def
        to_number_simps to_number_2_53 js_hypot_axis del: js_hypot.simps)

lemma far_near_groupLines:
  "groupLines [upEdge, farEdge, nearEdge] = [[upEdge], [farEdge, nearEdge]]"
  by (simp add: groupLines_def sameLine_def far_near_directions to_number_simps to_number_999)

lemma far_near_ranked:
  "map info_group (ranked [upEdge, farEdge, nearEdge]) = [[upEdge], [farEdge, nearEdge]]"
  by (simp add: ranked_def far_near_groupLines lineInfo_def far_near_total js_sort_def
        compareTotals_def js_sub_def is_negative_def to_number_simps)

lemma corner_pins:
  "pinsOf layout3 [cornerLongLeft, cornerLongRight] = [60, 62, 64]"
  "pinsOf layout3 [cornerShort] = [60, 65]"
  by (simp_all add: pinsOf_def cornerShort_def cornerLongLeft_def cornerLongRight_def layout3_def
        set_add_def)

theorem generateChordSequence_progression_witness:
  "[cornerShort, cornerLongLeft, cornerLongRight] \<noteq> []
   \<and> unitDirection cornerShort
       = (Num (5404319552844595 / 9007199254740992), Num (7205759403792794 / 9007199254740992))
   \<and> unitDirection cornerLongLeft = (Num 1, Num 0)
   \<and> unitDirection cornerLongRight = (Num (- 1), Num 0)
   \<and> sameLine cornerLongRight [cornerLongLeft] \<and> \<not> sameLine cornerLongLeft [cornerShort]
   \<and> groupLines [cornerShort, cornerLongLeft, cornerLongRight]
       = [[cornerShort], [cornerLongLeft, cornerLongRight]]
   \<and> totalLength [cornerLongLeft, cornerLongRight] = Num 100
   \<and> totalLength [cornerShort] = Num 50
   \<and> map chord_notes
        (sequence (generateChordSequence layout3 [cornerShort, cornerLongLeft, cornerLongRight]))
       = [[60, 62, 64], [60, 65], [60, 62, 64], [60, 65]]
   \<and> length (sequence (generateChordSequence layout3 [cornerShort, cornerLongLeft, cornerLongRight]))
       = 4
   \<and> totalLength [farEdge, nearEdge] = Num 9007199254740992
   \<and> totalLength [upEdge] = Num 9007199254740992
   \<and> groupLines [upEdge, farEdge, nearEdge] = [[upEdge], [farEdge, nearEdge]]
   \<and> map info_group (ranked [upEdge, farEdge, nearEdge]) = [[upEdge], [farEdge, nearEdge]]"
proof -
  let ?es = "[cornerShort, cornerLongLeft, cornerLongRight]"
  note t = generateChordSequence_progression[of ?es layout3 "[]" cornerShort
      "[]" "[cornerLongLeft, cornerLongRight]" "[cornerShort]"]
  have ne: "?es \<noteq> []" by simp
  have h: "?es \<noteq> []
      \<and> (groupLines ?es = [[cornerLongLeft, cornerLongRight], [cornerShort]]
          \<or> groupLines ?es = [[cornerShort], [cornerLongLeft, cornerLongRight]])
      \<and> totalLength [cornerLongLeft, cornerLongRight] = Num 100
      \<and> totalLength [cornerShort] = Num 50"
    using corner_groupLines corner_totals by simp
  have two: "map chord_notes (sequence (generateChordSequence layout3 ?es))
       = [pinsOf layout3 [cornerLongLeft, cornerLongRight], pinsOf layout3 [cornerShort],
          pinsOf layout3 [cornerLongLeft, cornerLongRight], pinsOf layout3 [cornerShort]]"
    using t[THEN conjunct2, THEN conjunct2, THEN conjunct2, THEN conjunct2, THEN conjunct2,
            THEN conjunct2, THEN conjunct2, THEN conjunct2, THEN mp, OF h] .
  have len: "length (sequence (generateChordSequence layout3 ?es)) = 4"
    using t[THEN conjunct1, THEN mp, OF ne] by blast
  show ?thesis
    using two len corner_groupLines corner_totals corner_directions corner_sameLine far_near_total
      far_near_groupLines far_near_ranked
    by (simp add: corner_pins)
qed

end
